theory Spec2Isabelle
  imports Main "HOL-Library.AList"
begin

section \<open>The local file system\<close>

text \<open>
  \<open>RemoteAuth.js\<close> works on three siblings below its data directory: the live session
  directory (\<open>userDataDir\<close>), the staging directory (\<open>tempDir\<close>) and the archive file
  (\<open><sessionName>.zip\<close>). The file system is a tree. A path is the list of its components
  below the root; \<open>path.resolve\<close> yields such an absolute, normalised path, and
  \<open>path.join\<close> of it with one plain name appends a component.

  A regular file either holds a well-formed zip archive (\<open>Zip\<close>, with the archive's
  top-level entries) or any other bytes (\<open>File\<close>); a directory lists its children.
\<close>

type_synonym path = "string list"

datatype node =
    File string
  | Zip "(string \<times> node) list"
  | Dir "(string \<times> node) list"

fun lookup :: "path \<Rightarrow> node \<Rightarrow> node option" where
  "lookup [] n = Some n"
| "lookup (c # cs) (Dir es) = (case map_of es c of None \<Rightarrow> None | Some m \<Rightarrow> lookup cs m)"
| "lookup (c # cs) _ = None"

text \<open>Recursive, forced removal of whatever is at a path; nothing happens when it is absent.\<close>

fun remove :: "path \<Rightarrow> node \<Rightarrow> node" where
  "remove [] n = n"
| "remove [c] (Dir es) = Dir (AList.delete c es)"
| "remove (c # cs) (Dir es) =
     (case map_of es c of
        None \<Rightarrow> Dir es
      | Some m \<Rightarrow> Dir (AList.update c (remove cs m) es))"
| "remove (c # cs) n = n"

text \<open>Putting a node at a path whose parent directory exists (\<open>None\<close>: no such parent).\<close>

fun place :: "path \<Rightarrow> node \<Rightarrow> node \<Rightarrow> node option" where
  "place [] x n = None"
| "place [c] x (Dir es) = Some (Dir (AList.update c x es))"
| "place (c # cs) x (Dir es) =
     (case map_of es c of
        None \<Rightarrow> None
      | Some m \<Rightarrow>
          (case place cs x m of
             None \<Rightarrow> None
           | Some m' \<Rightarrow> Some (Dir (AList.update c m' es))))"
| "place (c # cs) x n = None"

text \<open>\<open>mkdir\<close> with \<open>recursive: true\<close>: missing directories along the path are created, an
  existing directory is kept as it is, a regular file on the way is an error.\<close>

fun mkdirp :: "path \<Rightarrow> node \<Rightarrow> node option" where
  "mkdirp [] (Dir es) = Some (Dir es)"
| "mkdirp [] n = None"
| "mkdirp (c # cs) (Dir es) =
     (case mkdirp cs (case map_of es c of None \<Rightarrow> Dir [] | Some m \<Rightarrow> m) of
        None \<Rightarrow> None
      | Some m' \<Rightarrow> Some (Dir (AList.update c m' es)))"
| "mkdirp (c # cs) n = None"

text \<open>Copying a tree \<open>s\<close> over an existing tree \<open>d\<close>: directories are merged, a regular
  file is overwritten by a regular file. A directory cannot be copied over a regular file,
  nor a regular file over a directory: \<open>clash\<close> says that this happens somewhere below.\<close>

fun overlay :: "node \<Rightarrow> node \<Rightarrow> node" where
  "overlay (Dir ds) (Dir ss) =
     Dir (map (\<lambda>(k, d). (k, case map_of ss k of None \<Rightarrow> d | Some s \<Rightarrow> overlay d s)) ds
          @ filter (\<lambda>(k, s). map_of ds k = None) ss)"
| "overlay d s = s"

fun clash :: "node \<Rightarrow> node \<Rightarrow> bool" where
  "clash (Dir ds) (Dir ss) =
     list_ex (\<lambda>(k, s). case map_of ds k of None \<Rightarrow> False | Some d \<Rightarrow> clash d s) ss"
| "clash (Dir ds) s = True"
| "clash d (Dir ss) = True"
| "clash d s = False"

text \<open>The regular files of a tree with their paths, in the order of the entries;
  directories themselves are not listed.\<close>

fun files_of :: "path \<Rightarrow> node \<Rightarrow> (path \<times> node) list" where
  "files_of p (Dir es) = concat (map (\<lambda>(k, n). files_of (p @ [k]) n) es)"
| "files_of p n = [(p, n)]"

text \<open>A tree in which every directory lists a name once.\<close>

fun well_formed :: "node \<Rightarrow> bool" where
  "well_formed (Dir es) = (distinct (map fst es) \<and> list_all (\<lambda>(k, n). well_formed n) es)"
| "well_formed n = True"

text \<open>Writing one regular file, the directories above it being created as needed; a file
  that cannot be put there (a regular file on the way, a directory in its place) is left
  out.\<close>

definition write_file :: "path \<Rightarrow> node \<Rightarrow> node \<Rightarrow> node" where
  "write_file p n t =
     (case mkdirp (butlast p) t of
        None \<Rightarrow> t
      | Some t' \<Rightarrow>
          (case lookup p t' of
             Some (Dir ds) \<Rightarrow> t'
           | _ \<Rightarrow> (case place p n t' of None \<Rightarrow> t' | Some t'' \<Rightarrow> t'')))"

section \<open>Effects: trace, faults, timers\<close>

text \<open>
  Every call that leaves the module (file system, archive libraries, remote store, client
  event, timers) is recorded in a trace, in the order in which the code issues it.
\<close>

datatype event =
    Access path
  | Rm path int
  | Unlink path
  | Mkdir path
  | MkdirSync path
  | Cp path path
  | CreateWriteStream path
  | ArchiveDirectory path path
  | UnzipExtract path path
  | WriteEntry path
  | StoreSessionExists string
  | StoreSave path
  | StoreExtract string path
  | StoreDelete string
  | EmitRemoteSessionSaved
  | Delay int
  | SetInterval nat int
  | ClearInterval "nat option"

datatype error =
    MissingDependencies
  | InvalidClientId
  | InvalidBackupSyncIntervalMs
  | StoreRequired
  | IncompatibleUserDataDir
  | Failed event
  | Unsettled event

text \<open>
  \<open>Failed e\<close> is the rejection of call \<open>e\<close>. \<open>Unsettled e\<close> is no error that the code can
  catch: it says that the promise awaited at call \<open>e\<close> never settles, so the awaiting
  method never resumes and neither its \<open>catch\<close> nor its \<open>finally\<close> blocks run.

  The environment decides which calls raise: \<open>F h e\<close> says that call \<open>e\<close>, issued after the
  history \<open>h\<close>, fails for a reason of its own (I/O error, network error, a throwing
  listener). \<open>WriteEntry p\<close> is not a call of the module: it is the write of the file \<open>p\<close>
  that an extraction has started, and \<open>F h (WriteEntry p)\<close> says that this write is not
  complete when the extraction resolves. The remote store is the caller's object; the
  model keeps what the code can observe of it: the answer of \<open>sessionExists\<close> and the file
  that \<open>extract\<close> materialises (\<open>None\<close>: it resolves without writing one).
\<close>

type_synonym faults = "event list \<Rightarrow> event \<Rightarrow> bool"

record store =
  sessionExists_reply :: "event list \<Rightarrow> string \<Rightarrow> bool"
  extract_reply :: "event list \<Rightarrow> string \<Rightarrow> node option"

record world =
  files :: node
  trace :: "event list"
  timers :: "(nat \<times> int) list"
  next_timer :: nat

type_synonym 'a io = "world \<Rightarrow> (error + 'a) \<times> world"

definition ret :: "'a \<Rightarrow> 'a io" where
  "ret x w = (Inr x, w)"

text \<open>\<open>await m; f\<close>: a rejection of \<open>m\<close> skips the rest, and so does an \<open>m\<close> that never
  settles.\<close>

definition andThen :: "'a io \<Rightarrow> ('a \<Rightarrow> 'b io) \<Rightarrow> 'b io" where
  "andThen m f w = (case m w of (Inl e, w') \<Rightarrow> (Inl e, w') | (Inr x, w') \<Rightarrow> f x w')"

text \<open>\<open>m.catch(() => {})\<close>: the effect stays, the rejection is dropped. The module uses it
  on \<open>rm\<close> and \<open>unlink\<close> only, which always settle.\<close>

definition swallow :: "unit io \<Rightarrow> unit io" where
  "swallow m w = (Inr (), snd (m w))"

definition unsettled :: "error + 'a \<Rightarrow> bool" where
  "unsettled r = (case r of Inl (Unsettled e) \<Rightarrow> True | _ \<Rightarrow> False)"

text \<open>One external call: it is traced, then it fails (by the environment or because the
  file system does not allow it) or updates the tree. A failing call leaves the tree as it
  was; what a call has written before it failed is not modelled, and no statement below
  depends on it.\<close>

definition effect :: "faults \<Rightarrow> event \<Rightarrow> (node \<Rightarrow> node option) \<Rightarrow> unit io" where
  "effect F e f w =
     (let w' = w\<lparr>trace := trace w @ [e]\<rparr> in
      if F (trace w) e then (Inl (Failed e), w')
      else (case f (files w) of
              None \<Rightarrow> (Inl (Failed e), w')
            | Some t \<Rightarrow> (Inr (), w'\<lparr>files := t\<rparr>)))"

subsection \<open>File-system and archive calls\<close>

definition fs_access :: "faults \<Rightarrow> path \<Rightarrow> unit io" where
  "fs_access F p = effect F (Access p) (\<lambda>t. if lookup p t = None then None else Some t)"

definition fs_rm :: "faults \<Rightarrow> path \<Rightarrow> int \<Rightarrow> unit io" where
  "fs_rm F p maxRetries = effect F (Rm p maxRetries) (\<lambda>t. Some (remove p t))"

definition fs_unlink :: "faults \<Rightarrow> path \<Rightarrow> unit io" where
  "fs_unlink F p =
     effect F (Unlink p)
       (\<lambda>t. case lookup p t of
              None \<Rightarrow> None
            | Some (Dir es) \<Rightarrow> None
            | Some n \<Rightarrow> Some (remove p t))"

definition fs_mkdir :: "faults \<Rightarrow> path \<Rightarrow> unit io" where
  "fs_mkdir F p = effect F (Mkdir p) (mkdirp p)"

definition fs_mkdirSync :: "faults \<Rightarrow> path \<Rightarrow> unit io" where
  "fs_mkdirSync F p = effect F (MkdirSync p) (mkdirp p)"

text \<open>\<open>cp\<close> with \<open>recursive: true\<close>: the source must exist and the destination must not be
  the source or lie below it; the parent of the destination must exist; an existing
  destination is merged with the source unless the two clash.\<close>

definition fs_cp :: "faults \<Rightarrow> path \<Rightarrow> path \<Rightarrow> unit io" where
  "fs_cp F src dest =
     effect F (Cp src dest)
       (\<lambda>t. case lookup src t of
              None \<Rightarrow> None
            | Some s \<Rightarrow>
                if take (length src) dest = src then None
                else (case lookup dest t of
                        None \<Rightarrow> place dest s t
                      | Some d \<Rightarrow> if clash d s then None else place dest (overlay d s) t))"

text \<open>\<open>fs.createWriteStream\<close> never throws at the call; the result says whether the file
  could be opened (created empty, or truncated).\<close>

definition fs_createWriteStream :: "faults \<Rightarrow> path \<Rightarrow> world \<Rightarrow> bool \<times> world" where
  "fs_createWriteStream F p w =
     (case effect F (CreateWriteStream p)
             (\<lambda>t. case lookup p t of Some (Dir es) \<Rightarrow> None | _ \<Rightarrow> place p (File []) t) w of
        (Inl e, w') \<Rightarrow> (False, w')
      | (Inr u, w') \<Rightarrow> (True, w'))"

text \<open>The promise of \<open>compressSession\<close>:
  \<open>archive.directory(src, false).pipe(stream); archive.finalize()\<close>, on a stream that is
  open. The children of \<open>src\<close> become the entries of the archive written through the
  stream; the promise resolves when the stream closes and rejects on an error of the
  archiver or of the stream.\<close>

definition archive_directory :: "faults \<Rightarrow> path \<Rightarrow> path \<Rightarrow> unit io" where
  "archive_directory F src out =
     effect F (ArchiveDirectory src out)
       (\<lambda>t. case lookup src t of
              Some (Dir es) \<Rightarrow>
                (case lookup out t of Some (Dir ds) \<Rightarrow> None | _ \<Rightarrow> place out (Zip es) t)
            | _ \<Rightarrow> None)"

text \<open>What an extraction of the entries \<open>es\<close> into \<open>dest\<close> has put on disk when it
  resolves: the regular files whose writes are complete, with the directories above them.
  Directory entries are not extracted. What is on disk of a file whose write is not
  complete is not modelled, and no statement below depends on it.\<close>

definition extracted :: "faults \<Rightarrow> event list \<Rightarrow> path \<Rightarrow> (string \<times> node) list \<Rightarrow> node \<Rightarrow> node" where
  "extracted F h dest es t =
     fold (\<lambda>(p, n) t'. if F h (WriteEntry p) then t' else write_file p n t')
       (files_of dest (Dir es)) t"

text \<open>The promise of \<open>unCompressSession\<close>:
  \<open>fs.createReadStream(archivePath).pipe(unzipper.Extract({path: dest}))\<close>, resolved on
  \<open>finish\<close> and rejected on an \<open>error\<close> of the extraction. The read stream has no listener:
  when the archive cannot be read (it is missing, or a directory) the promise never
  settles. A file of no bytes has no entries and the promise resolves; other bytes that
  are no archive are rejected. \<open>finish\<close> comes when the archive has been read, which can be
  before the files are written.\<close>

definition unzip_extract :: "faults \<Rightarrow> path \<Rightarrow> path \<Rightarrow> unit io" where
  "unzip_extract F archivePath dest w =
     (let e = UnzipExtract archivePath dest;
          w' = w\<lparr>trace := trace w @ [e]\<rparr>
      in case lookup archivePath (files w) of
           None \<Rightarrow> (Inl (Unsettled e), w')
         | Some (Dir ds) \<Rightarrow> (Inl (Unsettled e), w')
         | Some (File bytes) \<Rightarrow>
             if F (trace w) e \<or> bytes \<noteq> [] then (Inl (Failed e), w') else (Inr (), w')
         | Some (Zip es) \<Rightarrow>
             if F (trace w) e then (Inl (Failed e), w')
             else (Inr (), w'\<lparr>files := extracted F (trace w) dest es (files w)\<rparr>))"

subsection \<open>Remote store, client event, timers\<close>

definition store_sessionExists :: "faults \<Rightarrow> store \<Rightarrow> string \<Rightarrow> bool io" where
  "store_sessionExists F st session w =
     (let w' = w\<lparr>trace := trace w @ [StoreSessionExists session]\<rparr> in
      if F (trace w) (StoreSessionExists session)
      then (Inl (Failed (StoreSessionExists session)), w')
      else (Inr (sessionExists_reply st (trace w) session), w'))"

definition store_save :: "faults \<Rightarrow> path \<Rightarrow> unit io" where
  "store_save F session = effect F (StoreSave session) Some"

definition store_extract :: "faults \<Rightarrow> store \<Rightarrow> string \<Rightarrow> path \<Rightarrow> unit io" where
  "store_extract F st session p w =
     effect F (StoreExtract session p)
       (\<lambda>t. case extract_reply st (trace w) session of
              None \<Rightarrow> Some t
            | Some n \<Rightarrow> place p n t) w"

definition store_delete :: "faults \<Rightarrow> string \<Rightarrow> unit io" where
  "store_delete F session = effect F (StoreDelete session) Some"

definition client_emit :: "faults \<Rightarrow> unit io" where
  "client_emit F = effect F EmitRemoteSessionSaved Some"

definition delay :: "int \<Rightarrow> unit io" where
  "delay ms w = (Inr (), w\<lparr>trace := trace w @ [Delay ms]\<rparr>)"

definition setInterval :: "int \<Rightarrow> world \<Rightarrow> nat \<times> world" where
  "setInterval ms w =
     (next_timer w,
      w\<lparr>trace := trace w @ [SetInterval (next_timer w) ms],
        timers := timers w @ [(next_timer w, ms)],
        next_timer := Suc (next_timer w)\<rparr>)"

definition clearInterval :: "nat option \<Rightarrow> unit io" where
  "clearInterval h w =
     (Inr (),
      w\<lparr>trace := trace w @ [ClearInterval h],
        timers := (case h of None \<Rightarrow> timers w | Some i \<Rightarrow> filter (\<lambda>(j, ms). j \<noteq> i) (timers w))\<rparr>)"

section \<open>The RemoteAuth strategy\<close>

subsection \<open>Optional dependencies and the constructor\<close>

text \<open>The \<open>try\<close> block at the top of the module: one failing \<open>require\<close> leaves all three
  variables undefined.\<close>

record deps =
  fs_loaded :: bool
  unzipper_loaded :: bool
  archiver_loaded :: bool

definition require_optional :: "(string \<Rightarrow> bool) \<Rightarrow> deps" where
  "require_optional installed =
     (if \<not> installed ''fs-extra'' then \<lparr>fs_loaded = False, unzipper_loaded = False, archiver_loaded = False\<rparr>
      else if \<not> installed ''unzipper'' then \<lparr>fs_loaded = False, unzipper_loaded = False, archiver_loaded = False\<rparr>
      else if \<not> installed ''archiver'' then \<lparr>fs_loaded = False, unzipper_loaded = False, archiver_loaded = False\<rparr>
      else \<lparr>fs_loaded = True, unzipper_loaded = True, archiver_loaded = True\<rparr>)"

text \<open>An option that is a string when it is given; it can also be left out or be \<open>null\<close>.\<close>

datatype jsstr = JsUndefined | JsNull | JsString string

record options =
  opt_clientId :: jsstr
  opt_dataPath :: jsstr
  opt_store :: "store option"
  opt_backupSyncIntervalMs :: "int option"
  opt_rmMaxRetries :: "int option"

record config =
  store :: store
  clientId :: jsstr
  backupSyncIntervalMs :: int
  dataPath :: path
  tempDir :: path
  requiredDirs :: "string list"
  rmMaxRetries :: int

text \<open>The character class \<open>[-_\w]\<close> and the test of \<open>/^[-_\w]+$/i\<close>.\<close>

definition word_char :: "char \<Rightarrow> bool" where
  "word_char c =
     (let n = (of_char c :: nat) in
      (48 \<le> n \<and> n \<le> 57) \<or> (65 \<le> n \<and> n \<le> 90) \<or> (97 \<le> n \<and> n \<le> 122) \<or> n = 95)"

definition id_char :: "char \<Rightarrow> bool" where
  "id_char c = (c = CHR ''-'' \<or> c = CHR ''_'' \<or> word_char c)"

definition idRegex_test :: "string \<Rightarrow> bool" where
  "idRegex_test s = (s \<noteq> [] \<and> list_all id_char s)"

text \<open>JavaScript truthiness of such a value: \<open>undefined\<close>, \<open>null\<close> and \<open>''\<close> are falsy.\<close>

definition truthy :: "jsstr \<Rightarrow> bool" where
  "truthy s = (case s of JsString x \<Rightarrow> x \<noteq> [] | _ \<Rightarrow> False)"

text \<open>Its conversion to a string, as in the template \<open>${clientId}\<close> or in an argument of
  \<open>test\<close>.\<close>

definition interpolate :: "jsstr \<Rightarrow> string" where
  "interpolate s =
     (case s of JsUndefined \<Rightarrow> ''undefined'' | JsNull \<Rightarrow> ''null'' | JsString x \<Rightarrow> x)"

text \<open>The constructor; \<open>resolve\<close> stands for \<open>path.resolve\<close> in the current working
  directory.\<close>

definition RemoteAuth :: "deps \<Rightarrow> (string \<Rightarrow> path) \<Rightarrow> options \<Rightarrow> error + config" where
  "RemoteAuth d resolve opts =
     (if \<not> fs_loaded d \<and> \<not> unzipper_loaded d \<and> \<not> archiver_loaded d then Inl MissingDependencies
      else if truthy (opt_clientId opts) \<and> \<not> idRegex_test (interpolate (opt_clientId opts))
        then Inl InvalidClientId
      else
        (case opt_backupSyncIntervalMs opts of
           None \<Rightarrow> Inl InvalidBackupSyncIntervalMs
         | Some ms \<Rightarrow>
            if ms = 0 \<or> ms < 60000 then Inl InvalidBackupSyncIntervalMs
            else
              (case opt_store opts of
                 None \<Rightarrow> Inl StoreRequired
               | Some st \<Rightarrow>
                  (let dp = resolve (if truthy (opt_dataPath opts)
                                     then interpolate (opt_dataPath opts) else ''./.wwebjs_auth/'')
                   in Inr \<lparr>store = st,
                           clientId = opt_clientId opts,
                           backupSyncIntervalMs = ms,
                           dataPath = dp,
                           tempDir = dp @ [''wwebjs_temp_session_'' @ interpolate (opt_clientId opts)],
                           requiredDirs = [''Default'', ''IndexedDB'', ''Local Storage''],
                           rmMaxRetries = (case opt_rmMaxRetries opts of None \<Rightarrow> 4 | Some r \<Rightarrow> r)\<rparr>))))"

subsection \<open>The initialised strategy and its methods\<close>

text \<open>\<open>beforeBrowserInitialized\<close> sets \<open>userDataDir\<close> and \<open>sessionName\<close>; the other methods
  are called by the client after it, so they are modelled on an object that has both.
  \<open>backupSync\<close> is the timer handle, undefined until \<open>afterAuthReady\<close> stores one.\<close>

record strategy = config +
  userDataDir :: path
  sessionName :: string
  backupSync :: "nat option"

definition isValidPath :: "faults \<Rightarrow> path \<Rightarrow> world \<Rightarrow> bool \<times> world" where
  "isValidPath F p w =
     (case fs_access F p w of (Inl e, w') \<Rightarrow> (False, w') | (Inr u, w') \<Rightarrow> (True, w'))"

fun copyDirs :: "faults \<Rightarrow> path \<Rightarrow> path \<Rightarrow> string list \<Rightarrow> unit io" where
  "copyDirs F udd tmp [] w = (Inr (), w)"
| "copyDirs F udd tmp (dir # dirs) w =
     (let srcDir = udd @ [dir]; destDir = tmp @ [dir] in
      case isValidPath F srcDir w of
        (exists, w1) \<Rightarrow>
          if exists
          then (case fs_cp F srcDir destDir w1 of
                  (Inl e, w2) \<Rightarrow> (Inl e, w2)
                | (Inr u, w2) \<Rightarrow> copyDirs F udd tmp dirs w2)
          else copyDirs F udd tmp dirs w1)"

definition copyByRequiredDirs :: "faults \<Rightarrow> strategy \<Rightarrow> unit io" where
  "copyByRequiredDirs F this =
     andThen (fs_mkdir F (tempDir this))
       (\<lambda>u. copyDirs F (userDataDir this) (tempDir this) (requiredDirs this))"

text \<open>\<open>compressSession\<close> creates the output stream first and attaches the listeners for
  \<open>close\<close> and \<open>error\<close> only after \<open>copyByRequiredDirs\<close> has been awaited. A stream that
  could not be opened emits its \<open>error\<close> while the staging is under way and nothing
  listens: the error is uncaught and \<open>compressSession\<close> does not settle, whatever the
  staging does.\<close>

definition compressSession :: "faults \<Rightarrow> strategy \<Rightarrow> path io" where
  "compressSession F this w =
     (let outputPath = dataPath this @ [sessionName this @ ''.zip''] in
      case fs_createWriteStream F outputPath w of
        (opened, w1) \<Rightarrow>
          if opened
          then andThen (copyByRequiredDirs F this)
                 (\<lambda>u. andThen (archive_directory F (tempDir this) outputPath)
                         (\<lambda>u. ret outputPath)) w1
          else (Inl (Unsettled (CreateWriteStream outputPath)),
                snd (copyByRequiredDirs F this w1)))"

text \<open>When \<open>unCompressSession\<close> returns, the archive is unlinked; of its files, those are
  on disk whose writes were complete when the extraction resolved.\<close>

definition unCompressSession :: "faults \<Rightarrow> strategy \<Rightarrow> path \<Rightarrow> unit io" where
  "unCompressSession F this compressedSessionPath =
     andThen (unzip_extract F compressedSessionPath (userDataDir this))
       (\<lambda>u. fs_unlink F compressedSessionPath)"

text \<open>The \<open>try\<close> block of \<open>storeRemoteSession\<close>: its outcome, and the value
  \<open>compressedSessionPath\<close> has when the \<open>finally\<close> block starts. The flag \<open>emit\<close> is
  \<open>options && options.emit\<close>.\<close>

definition storeRemoteSession_try ::
  "faults \<Rightarrow> strategy \<Rightarrow> bool \<Rightarrow> world \<Rightarrow> (error + unit) \<times> path option \<times> world" where
  "storeRemoteSession_try F this emit w =
     (case compressSession F this w of
        (Inl e, w1) \<Rightarrow> (Inl e, None, w1)
      | (Inr p, w1) \<Rightarrow>
          (case andThen (store_save F (dataPath this @ [sessionName this]))
                  (\<lambda>u. if emit then client_emit F else ret ()) w1 of
             (r, w2) \<Rightarrow> (r, Some p, w2)))"

text \<open>The \<open>finally\<close> block: \<open>Promise.allSettled\<close> of the two clean-up promises, created in
  this order; they work on different paths. It runs when the \<open>try\<close> block has settled.\<close>

definition storeRemoteSession_finally :: "faults \<Rightarrow> strategy \<Rightarrow> path option \<Rightarrow> world \<Rightarrow> world" where
  "storeRemoteSession_finally F this compressedSessionPath w =
     (let w1 = snd (swallow (case compressedSessionPath of
                               Some p \<Rightarrow> swallow (fs_unlink F p)
                             | None \<Rightarrow> ret ()) w)
      in snd (swallow (swallow (fs_rm F (tempDir this) (rmMaxRetries this))) w1))"

definition storeRemoteSession :: "faults \<Rightarrow> strategy \<Rightarrow> bool \<Rightarrow> unit io" where
  "storeRemoteSession F this emit w =
     (case isValidPath F (userDataDir this) w of
        (pathExists, w1) \<Rightarrow>
          if \<not> pathExists then (Inr (), w1)
          else (case storeRemoteSession_try F this emit w1 of
                  (r, compressedSessionPath, w2) \<Rightarrow>
                    if unsettled r then (r, w2)
                    else (r, storeRemoteSession_finally F this compressedSessionPath w2)))"

definition extractRemoteSession :: "faults \<Rightarrow> strategy \<Rightarrow> unit io" where
  "extractRemoteSession F this w =
     (case isValidPath F (userDataDir this) w of
        (pathExists, w1) \<Rightarrow>
          (let compressedSessionPath = dataPath this @ [sessionName this @ ''.zip''] in
           andThen (store_sessionExists F (store this) (sessionName this))
             (\<lambda>sessionExists.
                andThen (if pathExists
                         then swallow (fs_rm F (userDataDir this) (rmMaxRetries this))
                         else ret ())
                  (\<lambda>u. if sessionExists
                       then andThen (store_extract F (store this) (sessionName this) compressedSessionPath)
                              (\<lambda>u. unCompressSession F this compressedSessionPath)
                       else fs_mkdirSync F (userDataDir this))) w1))"

definition deleteRemoteSession :: "faults \<Rightarrow> strategy \<Rightarrow> unit io" where
  "deleteRemoteSession F this =
     andThen (store_sessionExists F (store this) (sessionName this))
       (\<lambda>sessionExists. if sessionExists then store_delete F (sessionName this) else ret ())"

definition destroy :: "strategy \<Rightarrow> unit io" where
  "destroy this = clearInterval (backupSync this)"

definition disconnect :: "faults \<Rightarrow> strategy \<Rightarrow> unit io" where
  "disconnect F this =
     andThen (deleteRemoteSession F this)
       (\<lambda>u w. case isValidPath F (userDataDir this) w of
                 (pathExists, w1) \<Rightarrow>
                   andThen (if pathExists
                            then swallow (fs_rm F (userDataDir this) (rmMaxRetries this))
                            else ret ())
                     (\<lambda>u. clearInterval (backupSync this)) w1)"

definition logout :: "faults \<Rightarrow> strategy \<Rightarrow> unit io" where
  "logout F this = disconnect F this"

text \<open>The body of the periodic callback handed to \<open>setInterval\<close>.\<close>

definition backupSync_callback :: "faults \<Rightarrow> strategy \<Rightarrow> unit io" where
  "backupSync_callback F self = storeRemoteSession F self False"

definition afterAuthReady :: "faults \<Rightarrow> strategy \<Rightarrow> strategy io" where
  "afterAuthReady F this =
     andThen (store_sessionExists F (store this) (sessionName this))
       (\<lambda>sessionExists.
          andThen (if \<not> sessionExists
                   then andThen (delay 60000) (\<lambda>u. storeRemoteSession F this True)
                   else ret ())
            (\<lambda>u w. case setInterval (backupSyncIntervalMs this) w of
                      (h, w') \<Rightarrow> (Inr (this\<lparr>backupSync := Some h\<rparr>), w')))"

text \<open>A path as the string \<open>path.join\<close> returns.\<close>

definition path_string :: "path \<Rightarrow> string" where
  "path_string p = (if p = [] then ''/'' else concat (map (\<lambda>c. CHR ''/'' # c) p))"

definition beforeBrowserInitialized :: "faults \<Rightarrow> config \<Rightarrow> jsstr \<Rightarrow> strategy io" where
  "beforeBrowserInitialized F cfg puppeteer_userDataDir w =
     (let sessionDirName = (if truthy (clientId cfg)
                            then ''RemoteAuth-'' @ interpolate (clientId cfg) else ''RemoteAuth'');
          dirPath = dataPath cfg @ [sessionDirName]
      in if truthy puppeteer_userDataDir \<and> interpolate puppeteer_userDataDir \<noteq> path_string dirPath
         then (Inl IncompatibleUserDataDir, w)
         else (let this = config.extend cfg
                            (strategy.fields dirPath sessionDirName None)
               in andThen (extractRemoteSession F this) (\<lambda>u. ret this) w))"

text \<open>The object as \<open>beforeBrowserInitialized\<close> leaves it for the later hooks.\<close>

definition initialised :: "config \<Rightarrow> strategy" where
  "initialised cfg =
     (let sessionDirName = (if truthy (clientId cfg)
                            then ''RemoteAuth-'' @ interpolate (clientId cfg) else ''RemoteAuth'');
          dirPath = dataPath cfg @ [sessionDirName]
      in config.extend cfg (strategy.fields dirPath sessionDirName None))"

text \<open>Calling the readiness hook a second time on the object the first call returned.\<close>

definition ready_twice :: "faults \<Rightarrow> strategy \<Rightarrow> strategy io" where
  "ready_twice F this = andThen (afterAuthReady F this) (\<lambda>this1. afterAuthReady F this1)"

text \<open>Staging and compressing the session directory, emptying it, and decompressing the
  archive into it.\<close>

definition roundtrip :: "faults \<Rightarrow> strategy \<Rightarrow> unit io" where
  "roundtrip F this =
     andThen (compressSession F this)
       (\<lambda>p. andThen (fs_rm F (userDataDir this) (rmMaxRetries this))
               (\<lambda>u. unCompressSession F this p))"

text \<open>What the copy loop adds to a staging directory with the entries \<open>es\<close>, none of them
  under a required name, when \<open>src\<close> looks the required names up in the session directory.\<close>

fun staged ::
  "(string \<Rightarrow> node option) \<Rightarrow> string list \<Rightarrow> (string \<times> node) list \<Rightarrow> (string \<times> node) list" where
  "staged src [] es = es"
| "staged src (d # ds) es =
     staged src ds (case src d of None \<Rightarrow> es | Some n \<Rightarrow> AList.update d n es)"

section \<open>Reading traces\<close>

text \<open>The calls with which a backup cycle probes and stages the session and writes the
  archive; the store and the two clean-up calls are not among them.\<close>

definition staging_call :: "event \<Rightarrow> bool" where
  "staging_call e =
     (case e of
        Access p \<Rightarrow> True
      | CreateWriteStream p \<Rightarrow> True
      | Mkdir p \<Rightarrow> True
      | Cp a b \<Rightarrow> True
      | ArchiveDirectory a b \<Rightarrow> True
      | _ \<Rightarrow> False)"

text \<open>\<open>steps P w w'\<close>: from \<open>w\<close> to \<open>w'\<close> the trace grew by calls satisfying \<open>P\<close>, and no
  timer was touched.\<close>

definition steps :: "(event \<Rightarrow> bool) \<Rightarrow> world \<Rightarrow> world \<Rightarrow> bool" where
  "steps P w w' =
     (\<exists>evs. trace w' = trace w @ evs \<and> list_all P evs
            \<and> timers w' = timers w \<and> next_timer w' = next_timer w)"

section \<open>Example objects\<close>

text \<open>A strategy for the identifier \<open>bot1\<close> under \<open>/srv/.wwebjs_auth\<close>, a session directory
  with the three required subdirectories and a cache beside them, and environments in
  which nothing fails or exactly one kind of call fails.\<close>

definition no_faults :: faults where
  "no_faults h e = False"

definition save_fails :: faults where
  "save_fails h e = (case e of StoreSave k \<Rightarrow> True | _ \<Rightarrow> False)"



definition demo_store :: "bool \<Rightarrow> node \<Rightarrow> store" where
  "demo_store present archive =
     \<lparr>sessionExists_reply = (\<lambda>h s. present), extract_reply = (\<lambda>h s. Some archive)\<rparr>"

definition demo_resolve :: "string \<Rightarrow> path" where
  "demo_resolve s = (if s = ''./.wwebjs_auth/'' then [''srv'', ''.wwebjs_auth''] else [s])"

definition demo_options :: "string \<Rightarrow> bool \<Rightarrow> node \<Rightarrow> options" where
  "demo_options cid present archive =
     \<lparr>opt_clientId = JsString cid, opt_dataPath = JsUndefined,
      opt_store = Some (demo_store present archive),
      opt_backupSyncIntervalMs = Some 60000, opt_rmMaxRetries = None\<rparr>"

definition demo_config :: "bool \<Rightarrow> node \<Rightarrow> config" where
  "demo_config present archive =
     \<lparr>store = demo_store present archive, clientId = JsString ''bot1'',
      backupSyncIntervalMs = 60000,
      dataPath = [''srv'', ''.wwebjs_auth''],
      tempDir = [''srv'', ''.wwebjs_auth'', ''wwebjs_temp_session_bot1''],
      requiredDirs = [''Default'', ''IndexedDB'', ''Local Storage''],
      rmMaxRetries = 4\<rparr>"

definition demo_session :: node where
  "demo_session =
     Dir [(''Default'', Dir [(''Cookies'', File ''c'')]),
          (''IndexedDB'', Dir [(''db'', File ''i'')]),
          (''Local Storage'', Dir [(''leveldb'', File ''l'')]),
          (''Cache'', Dir [(''blob'', File ''x'')])]"

text \<open>A world whose data directory holds the given entries.\<close>

definition demo_world :: "(string \<times> node) list \<Rightarrow> world" where
  "demo_world es =
     \<lparr>files = Dir [(''srv'', Dir [(''.wwebjs_auth'', Dir es)])],
      trace = [], timers = [], next_timer = 0\<rparr>"

definition demo_this :: strategy where
  "demo_this = initialised (demo_config False (File []))"

definition demo_recorded :: "node \<Rightarrow> strategy" where
  "demo_recorded archive = initialised (demo_config True archive)"

definition demo_dir :: path where
  "demo_dir = [''srv'', ''.wwebjs_auth'', ''RemoteAuth-bot1'']"

definition demo_zip :: path where
  "demo_zip = [''srv'', ''.wwebjs_auth'', ''RemoteAuth-bot1.zip'']"

definition demo_tmp :: path where
  "demo_tmp = [''srv'', ''.wwebjs_auth'', ''wwebjs_temp_session_bot1'']"

definition demo_w0 :: world where
  "demo_w0 = demo_world [(''RemoteAuth-bot1'', demo_session)]"

text \<open>\<open>demo_w0\<close> after the access probe of a backup cycle, and after its compression.\<close>

definition demo_w1 :: world where
  "demo_w1 = demo_w0\<lparr>trace := [Access demo_dir]\<rparr>"

definition demo_w2 :: "faults \<Rightarrow> world" where
  "demo_w2 F = snd (compressSession F demo_this demo_w1)"

text \<open>An archive as the store returns it, a world whose session directory has an empty
  directory in it, and a world with a leftover staging directory.\<close>

definition demo_archive :: node where
  "demo_archive =
     Zip [(''Default'', Dir [(''Cookies'', File ''c'')]),
          (''IndexedDB'', Dir [(''db'', File ''i'')]),
          (''Local Storage'', Dir [(''leveldb'', File ''l'')])]"

definition demo_hollow :: world where
  "demo_hollow =
     demo_world
       [(''RemoteAuth-bot1'',
         Dir [(''Default'', Dir [(''Cookies'', File ''c''), (''Sessions'', Dir [])]),
              (''IndexedDB'', Dir [(''db'', File ''i'')]),
              (''Local Storage'', Dir [(''leveldb'', File ''l'')])])]"

definition demo_stale :: world where
  "demo_stale =
     demo_world [(''RemoteAuth-bot1'', demo_session),
                 (''wwebjs_temp_session_bot1'', Dir [(''stale'', File ''old'')])]"

section \<open>Facts about the file-system tree\<close>

lemma remove_leaf: "remove p (File s) = File s" "remove p (Zip zs) = Zip zs"
  by (cases p; cases "tl p"; simp)+

lemma place_leaf: "place p x (File s) = None" "place p x (Zip zs) = None"
  by (cases p; cases "tl p"; simp)+

lemma mkdirp_leaf: "mkdirp p (File s) = None" "mkdirp p (Zip zs) = None"
  by (cases p; simp)+

lemma lookup_below_leaf:
  "q \<noteq> [] \<Longrightarrow> lookup q (File s) = None"
  "q \<noteq> [] \<Longrightarrow> lookup q (Zip zs) = None"
  "q \<noteq> [] \<Longrightarrow> lookup q (Dir []) = None"
  by (cases q; simp)+

lemma lookup_append:
  "lookup (p @ q) t = (case lookup p t of None \<Rightarrow> None | Some n \<Rightarrow> lookup q n)"
proof (induction p arbitrary: t)
  case Nil
  show ?case by simp
next
  case (Cons c cs)
  show ?case
  proof (cases t)
    case (Dir es)
    then show ?thesis using Cons.IH by (simp split: option.splits)
  qed simp_all
qed

lemma lookup_place_same: "place p x t = Some t' \<Longrightarrow> lookup p t' = Some x"
proof (induction p x t arbitrary: t' rule: place.induct)
  case (3 c v va x es)
  then show ?case by (auto simp add: update_conv' split: option.splits)
qed (auto simp add: update_conv')

text \<open>Writing below one child of a directory leaves its other children alone.\<close>

lemma lookup_place_frame:
  "place (D @ b # r') x t = Some t' \<Longrightarrow> a \<noteq> b \<Longrightarrow>
     lookup (D @ a # r) t' = lookup (D @ a # r) t"
proof (induction D arbitrary: t t')
  case Nil
  then show ?case
    by (cases t; cases r') (auto simp add: update_conv' split: option.splits)
next
  case (Cons c cs)
  show ?case
  proof (cases t)
    case (Dir es)
    with Cons.prems obtain m m' where
      m: "map_of es c = Some m" "place (cs @ b # r') x m = Some m'"
         "t' = Dir (AList.update c m' es)"
      by (cases "cs @ b # r'") (auto split: option.splits)
    from Cons.IH[OF m(2) Cons.prems(2)] m(1,3) Dir show ?thesis
      by (simp add: update_conv')
  next
    case (File s)
    with Cons.prems show ?thesis by (simp add: place_leaf)
  next
    case (Zip zs)
    with Cons.prems show ?thesis by (simp add: place_leaf)
  qed
qed

lemma lookup_remove_same: "p \<noteq> [] \<Longrightarrow> lookup p (remove p t) = None"
proof (induction p t rule: remove.induct)
  case (3 c v va es)
  then show ?case by (auto simp add: update_conv' delete_conv' split: option.splits)
qed (auto simp add: update_conv' delete_conv')

text \<open>Removal never makes a path appear.\<close>

lemma lookup_remove_None: "lookup p t = None \<Longrightarrow> lookup p (remove q t) = None"
proof (induction q arbitrary: p t)
  case Nil
  then show ?case by simp
next
  case (Cons c cs)
  show ?case
  proof (cases t)
    case (Dir es)
    show ?thesis
    proof (cases p)
      case Nil
      with Cons.prems show ?thesis by simp
    next
      case (Cons k ks)
      with Dir Cons.prems Cons.IH show ?thesis
        by (cases cs) (auto simp add: update_conv' delete_conv' split: option.splits)
    qed
  next
    case (File s)
    with Cons.prems show ?thesis by (simp add: remove_leaf)
  next
    case (Zip zs)
    with Cons.prems show ?thesis by (simp add: remove_leaf)
  qed
qed

lemma lookup_remove_frame:
  "a \<noteq> b \<Longrightarrow> lookup (D @ a # r) (remove (D @ b # r') t) = lookup (D @ a # r) t"
proof (induction D arbitrary: t)
  case Nil
  then show ?case
    by (cases t; cases r') (auto simp add: update_conv' delete_conv' split: option.splits)
next
  case (Cons c cs)
  show ?case
  proof (cases t)
    case (Dir es)
    then show ?thesis using Cons.IH[OF Cons.prems]
      by (cases "cs @ b # r'") (auto simp add: update_conv' split: option.splits)
  next
    case (File s)
    then show ?thesis by (simp add: remove_leaf)
  next
    case (Zip zs)
    then show ?thesis by (simp add: remove_leaf)
  qed
qed

lemma mkdirp_same:
  "mkdirp p t = Some t' \<Longrightarrow>
     lookup p t' = Some (case lookup p t of None \<Rightarrow> Dir [] | Some n \<Rightarrow> n)"
proof (induction p t arbitrary: t' rule: mkdirp.induct)
  case (3 c cs es)
  then show ?case
    by (cases cs) (auto simp add: update_conv' split: option.splits)
qed auto

lemma mkdirp_frame:
  "mkdirp (D @ b # r') t = Some t' \<Longrightarrow> a \<noteq> b \<Longrightarrow>
     lookup (D @ a # r) t' = lookup (D @ a # r) t"
proof (induction D arbitrary: t t')
  case Nil
  then show ?case
    by (cases t) (auto simp add: update_conv' split: option.splits)
next
  case (Cons c cs)
  show ?case
  proof (cases t)
    case (Dir es)
    with Cons.prems obtain m' where
      m: "mkdirp (cs @ b # r') (case map_of es c of None \<Rightarrow> Dir [] | Some m \<Rightarrow> m) = Some m'"
         "t' = Dir (AList.update c m' es)"
      by (auto split: option.splits)
    from Cons.IH[OF m(1) Cons.prems(2)] m(2) Dir show ?thesis
      by (cases "map_of es c") (simp_all add: update_conv' lookup_below_leaf)
  next
    case (File s)
    with Cons.prems show ?thesis by simp
  next
    case (Zip zs)
    with Cons.prems show ?thesis by simp
  qed
qed

section \<open>Construction\<close>

lemma demo_construction:
  "RemoteAuth (require_optional (\<lambda>p. True)) demo_resolve (demo_options ''bot1'' present archive)
     = Inr (demo_config present archive)"
  by (simp add: RemoteAuth_def require_optional_def demo_options_def demo_config_def
      demo_resolve_def truthy_def interpolate_def idRegex_test_def id_char_def word_char_def)

text \<open>
  Claim C6. Whenever one of the optional dependencies \<open>fs-extra\<close>, \<open>unzipper\<close>, \<open>archiver\<close>
  cannot be loaded, the \<open>try\<close> block leaves all three undefined and the constructor fails
  with the missing-dependencies error before it looks at any option: the failure happens
  at construction, whatever the options are.
\<close>

theorem missing_dependency_fails_construction:
  "\<not> (installed ''fs-extra'' \<and> installed ''unzipper'' \<and> installed ''archiver'') \<Longrightarrow>
     RemoteAuth (require_optional installed) resolve opts = Inl MissingDependencies"
  by (auto simp add: RemoteAuth_def require_optional_def)

theorem missing_dependency_fails_construction_witness:
  "\<not> ((\<lambda>p. p \<noteq> ''unzipper'') ''fs-extra'' \<and> (\<lambda>p. p \<noteq> ''unzipper'') ''unzipper''
       \<and> (\<lambda>p. p \<noteq> ''unzipper'') ''archiver'')
   \<and> RemoteAuth (require_optional (\<lambda>p. p \<noteq> ''unzipper'')) demo_resolve
        (demo_options ''bot1'' False (File [])) = Inl MissingDependencies"
proof -
  have h: "\<not> ((\<lambda>p. p \<noteq> ''unzipper'') ''fs-extra'' \<and> (\<lambda>p. p \<noteq> ''unzipper'') ''unzipper''
       \<and> (\<lambda>p. p \<noteq> ''unzipper'') ''archiver'')"
    by simp
  from missing_dependency_fails_construction[OF h] h show ?thesis by blast
qed

text \<open>
  Claim C5, as stated, fails at the empty string: it is a supplied identifier that does
  not match \<open>/^[-_\w]+$/i\<close>, yet it is falsy, so the guard \<open>clientId && ...\<close> skips the test
  and construction succeeds.
\<close>

theorem empty_clientId_is_accepted:
  "opt_clientId (demo_options [] False (File [])) = JsString []
   \<and> \<not> idRegex_test []
   \<and> \<not> isl (RemoteAuth (require_optional (\<lambda>p. True)) demo_resolve
               (demo_options [] False (File [])))"
  by code_simp

text \<open>
  Claim C5, amended. With the dependencies loaded, a store and an interval of at least
  60000 ms: for every supplied identifier string that is empty or matches the allowed
  character set (one or more letters, digits, underscores or hyphens) construction
  succeeds and keeps the identifier; for every other supplied identifier string it fails
  with the invalid-identifier error.
\<close>

theorem clientId_pattern_decides_construction:
  assumes "fs_loaded d \<or> unzipper_loaded d \<or> archiver_loaded d"
    and "opt_store opts = Some st"
    and "opt_backupSyncIntervalMs opts = Some ms" and "60000 \<le> ms"
    and "opt_clientId opts = JsString cid"
  shows "(cid = [] \<or> idRegex_test cid \<longrightarrow>
            (\<exists>cfg. RemoteAuth d resolve opts = Inr cfg \<and> clientId cfg = JsString cid))
       \<and> (cid \<noteq> [] \<and> \<not> idRegex_test cid \<longrightarrow> RemoteAuth d resolve opts = Inl InvalidClientId)"
  using assms
  by (cases cid)
     (auto simp add: RemoteAuth_def truthy_def interpolate_def idRegex_test_def Let_def)

theorem clientId_pattern_decides_construction_witness:
  "idRegex_test ''bot_1-A''
   \<and> (\<exists>cfg. RemoteAuth (require_optional (\<lambda>p. True)) demo_resolve
              (demo_options ''bot_1-A'' False (File [])) = Inr cfg
            \<and> clientId cfg = JsString ''bot_1-A'')
   \<and> (\<exists>cfg. RemoteAuth (require_optional (\<lambda>p. True)) demo_resolve
              (demo_options [] False (File [])) = Inr cfg
            \<and> clientId cfg = JsString [])
   \<and> ''bot 1'' \<noteq> [] \<and> \<not> idRegex_test ''bot 1''
   \<and> RemoteAuth (require_optional (\<lambda>p. True)) demo_resolve
        (demo_options ''bot 1'' False (File [])) = Inl InvalidClientId"
proof -
  have d: "fs_loaded (require_optional (\<lambda>p. True)) \<or> unzipper_loaded (require_optional (\<lambda>p. True))
           \<or> archiver_loaded (require_optional (\<lambda>p. True))"
    by (simp add: require_optional_def)
  have st: "opt_store (demo_options cid False (File [])) = Some (demo_store False (File []))"
    and ms: "opt_backupSyncIntervalMs (demo_options cid False (File [])) = Some 60000"
    and ci: "opt_clientId (demo_options cid False (File [])) = JsString cid" for cid
    by (simp_all add: demo_options_def)
  have good: "idRegex_test ''bot_1-A''" and bad: "\<not> idRegex_test ''bot 1''"
    by (simp_all add: idRegex_test_def id_char_def word_char_def)
  from clientId_pattern_decides_construction[OF d st ms _ ci, of "''bot_1-A''" demo_resolve]
       clientId_pattern_decides_construction[OF d st ms _ ci, of "[]" demo_resolve]
       clientId_pattern_decides_construction[OF d st ms _ ci, of "''bot 1''" demo_resolve]
       good bad
  show ?thesis by simp
qed

section \<open>The backup cycle without a session directory\<close>

text \<open>
  Claim C10. When the local session directory does not exist, a backup cycle returns at
  once and normally: the access probe is its only call, so no archive is created, the
  store's \<open>save\<close> is not called, and the file system (staging directory included), the
  timers and everything else in the world stay as they were.
\<close>

theorem storeRemoteSession_without_session_directory:
  "lookup (userDataDir this) (files w) = None \<Longrightarrow>
     storeRemoteSession F this emit w
       = (Inr (), w\<lparr>trace := trace w @ [Access (userDataDir this)]\<rparr>)"
  by (simp add: storeRemoteSession_def isValidPath_def fs_access_def effect_def Let_def)

theorem storeRemoteSession_without_session_directory_witness:
  "lookup (userDataDir (initialised (demo_config False (File [])))) (files (demo_world [])) = None
   \<and> storeRemoteSession no_faults (initialised (demo_config False (File []))) True (demo_world [])
       = (Inr (), (demo_world [])\<lparr>trace := [Access [''srv'', ''.wwebjs_auth'', ''RemoteAuth-bot1'']]\<rparr>)"
proof -
  have h: "lookup (userDataDir (initialised (demo_config False (File [])))) (files (demo_world [])) = None"
    by code_simp
  have u: "userDataDir (initialised (demo_config False (File []))) = [''srv'', ''.wwebjs_auth'', ''RemoteAuth-bot1'']"
    by code_simp
  from storeRemoteSession_without_session_directory[OF h, of no_faults True] h u
  show ?thesis by (simp add: demo_world_def)
qed

section \<open>Facts about traces\<close>

lemma steps_refl: "steps P w w"
  by (simp add: steps_def)

lemma steps_trans: "steps P w w1 \<Longrightarrow> steps P w1 w2 \<Longrightarrow> steps P w w2"
  by (auto simp add: steps_def)

lemma effect_world:
  "effect F e f w = (r, w') \<Longrightarrow>
     trace w' = trace w @ [e] \<and> timers w' = timers w \<and> next_timer w' = next_timer w"
  by (auto simp add: effect_def Let_def split: if_splits option.splits)

lemma effect_Inr:
  "effect F e f w = (Inr u, w') \<Longrightarrow>
     \<not> F (trace w) e \<and> (\<exists>t. f (files w) = Some t \<and> w' = w\<lparr>trace := trace w @ [e], files := t\<rparr>)"
  by (auto simp add: effect_def Let_def split: if_splits option.splits)

lemma effect_Inl:
  "effect F e f w = (Inl x, w') \<Longrightarrow> x = Failed e \<and> w' = w\<lparr>trace := trace w @ [e]\<rparr>"
  by (auto simp add: effect_def Let_def split: if_splits option.splits)

lemma effect_steps: "effect F e f w = (r, w') \<Longrightarrow> P e \<Longrightarrow> steps P w w'"
  by (drule effect_world) (simp add: steps_def)

lemma isValidPath_world:
  "isValidPath F p w = (b, w') \<Longrightarrow>
     w' = w\<lparr>trace := trace w @ [Access p]\<rparr>
     \<and> (b \<longleftrightarrow> \<not> F (trace w) (Access p) \<and> lookup p (files w) \<noteq> None)"
  by (auto simp add: isValidPath_def fs_access_def effect_def Let_def split: if_splits option.splits)

lemma isValidPath_steps: "isValidPath F p w = (b, w') \<Longrightarrow> steps staging_call w w'"
  by (drule isValidPath_world) (simp add: steps_def staging_call_def)

lemma copyDirs_steps: "copyDirs F udd tmp dirs w = (r, w') \<Longrightarrow> steps staging_call w w'"
proof (induction dirs arbitrary: w)
  case Nil
  then show ?case by (simp add: steps_refl)
next
  case (Cons dir dirs)
  obtain b w1 where v: "isValidPath F (udd @ [dir]) w = (b, w1)"
    by (cases "isValidPath F (udd @ [dir]) w")
  note s1 = isValidPath_steps[OF v]
  show ?case
  proof (cases b)
    case False
    with Cons.prems v have "copyDirs F udd tmp dirs w1 = (r, w')" by simp
    from steps_trans[OF s1 Cons.IH[OF this]] show ?thesis .
  next
    case True
    obtain c w2 where cp: "fs_cp F (udd @ [dir]) (tmp @ [dir]) w1 = (c, w2)"
      by (cases "fs_cp F (udd @ [dir]) (tmp @ [dir]) w1")
    then have s2: "steps staging_call w1 w2"
      unfolding fs_cp_def by (rule effect_steps) (simp add: staging_call_def)
    show ?thesis
    proof (cases c)
      case (Inl e)
      with Cons.prems v True cp have "w' = w2" by simp
      with steps_trans[OF s1 s2] show ?thesis by simp
    next
      case (Inr u)
      with Cons.prems v True cp have "copyDirs F udd tmp dirs w2 = (r, w')" by simp
      from steps_trans[OF steps_trans[OF s1 s2] Cons.IH[OF this]] show ?thesis .
    qed
  qed
qed

lemma andThen_cases:
  assumes "andThen m f w = (r, w')"
  obtains (fail) e where "m w = (Inl e, w')" "r = Inl e"
        | (ok) x w1 where "m w = (Inr x, w1)" "f x w1 = (r, w')"
  using assms by (auto simp add: andThen_def split: prod.splits sum.splits)

lemma copyByRequiredDirs_steps:
  assumes "copyByRequiredDirs F this w = (r, w')"
  shows "steps staging_call w w'"
  using assms unfolding copyByRequiredDirs_def
proof (cases rule: andThen_cases)
  case (fail e)
  then show ?thesis unfolding fs_mkdir_def by (auto intro: effect_steps simp add: staging_call_def)
next
  case (ok x w1)
  from ok(1) have "steps staging_call w w1"
    unfolding fs_mkdir_def by (rule effect_steps) (simp add: staging_call_def)
  from steps_trans[OF this copyDirs_steps[OF ok(2)]] show ?thesis .
qed

lemma createWriteStream_steps:
  "fs_createWriteStream F p w = (b, w') \<Longrightarrow> steps staging_call w w'"
  unfolding fs_createWriteStream_def
  by (auto split: prod.splits sum.splits intro!: effect_steps simp add: staging_call_def)

lemma archive_directory_steps:
  "archive_directory F src out w = (r, w') \<Longrightarrow> steps staging_call w w'"
  unfolding archive_directory_def by (erule effect_steps) (simp add: staging_call_def)

lemma copyDirs_error:
  "copyDirs F udd tmp dirs w = (Inl e, w') \<Longrightarrow> \<exists>ev. e = Failed ev"
proof (induction dirs arbitrary: w)
  case Nil
  then show ?case by simp
next
  case (Cons dir dirs)
  obtain b w1 where v: "isValidPath F (udd @ [dir]) w = (b, w1)"
    by (cases "isValidPath F (udd @ [dir]) w")
  show ?case
  proof (cases b)
    case False
    with Cons.prems v have "copyDirs F udd tmp dirs w1 = (Inl e, w')" by simp
    from Cons.IH[OF this] show ?thesis .
  next
    case True
    obtain c w2 where cp: "fs_cp F (udd @ [dir]) (tmp @ [dir]) w1 = (c, w2)"
      by (cases "fs_cp F (udd @ [dir]) (tmp @ [dir]) w1")
    show ?thesis
    proof (cases c)
      case (Inl x)
      with Cons.prems v True cp have "e = x" by simp
      moreover from cp Inl have "x = Failed (Cp (udd @ [dir]) (tmp @ [dir]))"
        unfolding fs_cp_def by (auto dest: effect_Inl)
      ultimately show ?thesis by blast
    next
      case (Inr u)
      with Cons.prems v True cp have "copyDirs F udd tmp dirs w2 = (Inl e, w')" by simp
      from Cons.IH[OF this] show ?thesis .
    qed
  qed
qed

lemma copyByRequiredDirs_error:
  assumes "copyByRequiredDirs F this w = (Inl e, w')"
  shows "\<exists>ev. e = Failed ev"
  using assms unfolding copyByRequiredDirs_def
proof (cases rule: andThen_cases)
  case (fail x)
  then show ?thesis unfolding fs_mkdir_def by (auto dest: effect_Inl)
next
  case (ok x w1)
  from copyDirs_error[OF ok(2)] show ?thesis .
qed

text \<open>\<open>compressSession\<close> rejects only on a stream that was opened.\<close>

lemma compressSession_opened:
  assumes "fs_createWriteStream F (dataPath this @ [sessionName this @ ''.zip'']) w = (True, w1)"
  shows "compressSession F this w
       = andThen (copyByRequiredDirs F this)
           (\<lambda>u. andThen (archive_directory F (tempDir this) (dataPath this @ [sessionName this @ ''.zip'']))
                   (\<lambda>u. ret (dataPath this @ [sessionName this @ ''.zip'']))) w1"
  using assms by (simp add: compressSession_def Let_def)

lemma compressSession_unopened:
  assumes "fs_createWriteStream F (dataPath this @ [sessionName this @ ''.zip'']) w = (False, w1)"
  shows "compressSession F this w
       = (Inl (Unsettled (CreateWriteStream (dataPath this @ [sessionName this @ ''.zip'']))),
          snd (copyByRequiredDirs F this w1))"
  using assms by (simp add: compressSession_def Let_def)

lemma compressSession_error:
  assumes "compressSession F this w = (Inl e, w')"
  shows "(\<exists>ev. e = Failed ev)
       \<or> e = Unsettled (CreateWriteStream (dataPath this @ [sessionName this @ ''.zip'']))"
proof -
  let ?Z = "dataPath this @ [sessionName this @ ''.zip'']"
  obtain opened w1 where o: "fs_createWriteStream F ?Z w = (opened, w1)"
    by (cases "fs_createWriteStream F ?Z w")
  show ?thesis
  proof (cases opened)
    case False
    with o assms compressSession_unopened[of F this w w1] show ?thesis by simp
  next
    case True
    with o assms compressSession_opened[of F this w w1]
    have a: "andThen (copyByRequiredDirs F this)
            (\<lambda>u. andThen (archive_directory F (tempDir this) ?Z)
                    (\<lambda>u. ret ?Z)) w1 = (Inl e, w')"
      by simp
    from a show ?thesis
    proof (cases rule: andThen_cases)
      case (fail x)
      with copyByRequiredDirs_error[of F this w1 x w'] show ?thesis by simp
    next
      case (ok x w2)
      from ok(2) show ?thesis
      proof (cases rule: andThen_cases)
        case (fail y)
        then show ?thesis unfolding archive_directory_def by (auto dest: effect_Inl)
      next
        case (ok y w3)
        then show ?thesis by (simp add: ret_def)
      qed
    qed
  qed
qed

lemma compressSession_steps:
  assumes "compressSession F this w = (r, w')"
  shows "steps staging_call w w'"
    and "r = Inr p \<Longrightarrow> p = dataPath this @ [sessionName this @ ''.zip'']"
proof -
  let ?Z = "dataPath this @ [sessionName this @ ''.zip'']"
  obtain opened w1 where o: "fs_createWriteStream F ?Z w = (opened, w1)"
    by (cases "fs_createWriteStream F ?Z w")
  note s1 = createWriteStream_steps[OF o]
  have "steps staging_call w1 w' \<and> (r = Inr p \<longrightarrow> p = ?Z)"
  proof (cases opened)
    case False
    with o assms compressSession_unopened[of F this w w1]
    have "r = Inl (Unsettled (CreateWriteStream ?Z))" "w' = snd (copyByRequiredDirs F this w1)"
      by simp_all
    with copyByRequiredDirs_steps[of F this w1 "fst (copyByRequiredDirs F this w1)" w']
    show ?thesis by simp
  next
    case True
    with o assms compressSession_opened[of F this w w1]
    have a: "andThen (copyByRequiredDirs F this)
            (\<lambda>u. andThen (archive_directory F (tempDir this) ?Z)
                    (\<lambda>u. ret ?Z)) w1 = (r, w')"
      by simp
    from a show ?thesis
    proof (cases rule: andThen_cases)
      case (fail e)
      with copyByRequiredDirs_steps show ?thesis by auto
    next
      case (ok x w2)
      note s2 = copyByRequiredDirs_steps[OF ok(1)]
      from ok(2) show ?thesis
      proof (cases rule: andThen_cases)
        case (fail e)
        then have "steps staging_call w2 w'"
          by (auto intro: archive_directory_steps)
        with s2 fail show ?thesis by (auto intro: steps_trans)
      next
        case (ok y w3)
        then have "steps staging_call w2 w3" "w' = w3" "r = Inr ?Z"
          by (auto intro: archive_directory_steps simp add: ret_def)
        with s2 show ?thesis by (auto intro: steps_trans)
      qed
    qed
  qed
  with s1 show "steps staging_call w w'" and "r = Inr p \<Longrightarrow> p = ?Z"
    by (auto intro: steps_trans)
qed

lemma finally_world:
  "trace (storeRemoteSession_finally F this csp w)
     = trace w @ (case csp of Some p \<Rightarrow> [Unlink p] | None \<Rightarrow> [])
               @ [Rm (tempDir this) (rmMaxRetries this)]"
  "timers (storeRemoteSession_finally F this csp w) = timers w"
  "next_timer (storeRemoteSession_finally F this csp w) = next_timer w"
  by (auto simp add: storeRemoteSession_finally_def swallow_def ret_def fs_unlink_def fs_rm_def
      effect_def Let_def split: option.splits node.splits)

lemma save_emit_world:
  assumes "andThen (store_save F k) (\<lambda>u. if emit then client_emit F else ret ()) w = (r, w')"
  shows "files w' = files w \<and> timers w' = timers w \<and> next_timer w' = next_timer w
     \<and> (if F (trace w) (StoreSave k)
          then r = Inl (Failed (StoreSave k)) \<and> trace w' = trace w @ [StoreSave k]
        else if emit
          then trace w' = trace w @ [StoreSave k, EmitRemoteSessionSaved]
             \<and> r = (if F (trace w @ [StoreSave k]) EmitRemoteSessionSaved
                    then Inl (Failed EmitRemoteSessionSaved) else Inr ())
        else r = Inr () \<and> trace w' = trace w @ [StoreSave k])"
  using assms
  by (auto simp add: andThen_def store_save_def client_emit_def ret_def effect_def Let_def
      split: if_splits)

lemma save_emit_settles:
  assumes "andThen (store_save F k) (\<lambda>u. if emit then client_emit F else ret ()) w = (r, w')"
  shows "\<not> unsettled r"
  using save_emit_world[OF assms] by (auto simp add: unsettled_def split: if_splits)

lemma storeRemoteSession_cases:
  assumes v: "isValidPath F (userDataDir this) w = (True, w1)"
  shows "compressSession F this w1 = (Inl (Failed ev), w2) \<Longrightarrow>
           storeRemoteSession F this emit w
             = (Inl (Failed ev), storeRemoteSession_finally F this None w2)"
    and "compressSession F this w1 = (Inl (Unsettled ev), w2) \<Longrightarrow>
           storeRemoteSession F this emit w = (Inl (Unsettled ev), w2)"
    and "compressSession F this w1 = (Inr p, w2) \<Longrightarrow>
           andThen (store_save F (dataPath this @ [sessionName this]))
                   (\<lambda>u. if emit then client_emit F else ret ()) w2 = (r, w3) \<Longrightarrow>
           storeRemoteSession F this emit w = (r, storeRemoteSession_finally F this (Some p) w3)"
proof -
  show "compressSession F this w1 = (Inl (Failed ev), w2) \<Longrightarrow>
           storeRemoteSession F this emit w
             = (Inl (Failed ev), storeRemoteSession_finally F this None w2)"
    using v by (simp add: storeRemoteSession_def storeRemoteSession_try_def unsettled_def)
  show "compressSession F this w1 = (Inl (Unsettled ev), w2) \<Longrightarrow>
           storeRemoteSession F this emit w = (Inl (Unsettled ev), w2)"
    using v by (simp add: storeRemoteSession_def storeRemoteSession_try_def unsettled_def)
  assume c: "compressSession F this w1 = (Inr p, w2)"
    and se: "andThen (store_save F (dataPath this @ [sessionName this]))
                   (\<lambda>u. if emit then client_emit F else ret ()) w2 = (r, w3)"
  from save_emit_settles[OF se] v c se
  show "storeRemoteSession F this emit w = (r, storeRemoteSession_finally F this (Some p) w3)"
    by (simp add: storeRemoteSession_def storeRemoteSession_try_def)
qed

lemma storeRemoteSession_world:
  assumes "storeRemoteSession F this emit w = (r, w')"
  shows "timers w' = timers w \<and> next_timer w' = next_timer w
       \<and> (\<exists>evs. trace w' = trace w @ evs
              \<and> (r = Inr () \<and> emit \<longrightarrow>
                    evs = [Access (userDataDir this)]
                  \<or> (\<exists>staging p. evs = staging @ [StoreSave (dataPath this @ [sessionName this]),
                                                    EmitRemoteSessionSaved, Unlink p,
                                                    Rm (tempDir this) (rmMaxRetries this)]
                                  \<and> list_all staging_call staging)))"
proof -
  let ?k = "dataPath this @ [sessionName this]"
  obtain b w1 where v: "isValidPath F (userDataDir this) w = (b, w1)"
    by (cases "isValidPath F (userDataDir this) w")
  note vw = isValidPath_world[OF v]
  show ?thesis
  proof (cases b)
    case False
    with assms v have "r = Inr ()" "w' = w1" by (simp_all add: storeRemoteSession_def)
    with vw show ?thesis by simp
  next
    case True
    with v have v': "isValidPath F (userDataDir this) w = (True, w1)" by simp
    obtain c w2 where c: "compressSession F this w1 = (c, w2)"
      by (cases "compressSession F this w1")
    from compressSession_steps(1)[OF c] obtain evs2 where
      e2: "trace w2 = trace w1 @ evs2" "list_all staging_call evs2"
          "timers w2 = timers w1" "next_timer w2 = next_timer w1"
      by (auto simp add: steps_def)
    show ?thesis
    proof (cases c)
      case (Inl e)
      with c have c': "compressSession F this w1 = (Inl e, w2)" by simp
      from compressSession_error[OF c'] consider
          (failed) ev where "e = Failed ev" | (hangs) ev where "e = Unsettled ev" by blast
      then show ?thesis
      proof cases
        case failed
        from storeRemoteSession_cases(1)[OF v' c'[unfolded failed]] assms
        have "r = Inl (Failed ev)" "w' = storeRemoteSession_finally F this None w2" by simp_all
        with vw e2 show ?thesis by (simp add: finally_world)
      next
        case hangs
        from storeRemoteSession_cases(2)[OF v' c'[unfolded hangs]] assms
        have "r = Inl (Unsettled ev)" "w' = w2" by simp_all
        with vw e2 show ?thesis by simp
      qed
    next
      case (Inr p)
      with c have c': "compressSession F this w1 = (Inr p, w2)" by simp
      obtain r' w3 where se: "andThen (store_save F ?k) (\<lambda>u. if emit then client_emit F else ret ()) w2 = (r', w3)"
        by (cases "andThen (store_save F ?k) (\<lambda>u. if emit then client_emit F else ret ()) w2")
      from storeRemoteSession_cases(3)[OF v' c' se] assms
      have rw: "r = r'" "w' = storeRemoteSession_finally F this (Some p) w3" by simp_all
      note sw = save_emit_world[OF se]
      have tr: "trace w' = trace w3 @ [Unlink p, Rm (tempDir this) (rmMaxRetries this)]"
        using rw by (simp add: finally_world)
      have tm: "timers w' = timers w \<and> next_timer w' = next_timer w"
        using rw sw e2 vw by (simp add: finally_world)
      have "\<exists>evs3. trace w3 = trace w2 @ evs3
              \<and> (r = Inr () \<and> emit \<longrightarrow> evs3 = [StoreSave ?k, EmitRemoteSessionSaved])"
        using sw rw by (auto split: if_splits)
      then obtain evs3 where e3: "trace w3 = trace w2 @ evs3"
         "r = Inr () \<and> emit \<longrightarrow> evs3 = [StoreSave ?k, EmitRemoteSessionSaved]" by blast
      have "trace w' = trace w @ (Access (userDataDir this) # evs2 @ evs3
                @ [Unlink p, Rm (tempDir this) (rmMaxRetries this)])"
        using tr e3 e2 vw by simp
      moreover have "r = Inr () \<and> emit \<longrightarrow>
          (\<exists>staging p'. Access (userDataDir this) # evs2 @ evs3
                @ [Unlink p, Rm (tempDir this) (rmMaxRetries this)]
             = staging @ [StoreSave ?k, EmitRemoteSessionSaved, Unlink p',
                          Rm (tempDir this) (rmMaxRetries this)]
             \<and> list_all staging_call staging)"
      proof
        assume a: "r = Inr () \<and> emit"
        with e3 have "evs3 = [StoreSave ?k, EmitRemoteSessionSaved]" by simp
        then have "Access (userDataDir this) # evs2 @ evs3
                @ [Unlink p, Rm (tempDir this) (rmMaxRetries this)]
             = (Access (userDataDir this) # evs2) @ [StoreSave ?k, EmitRemoteSessionSaved, Unlink p,
                          Rm (tempDir this) (rmMaxRetries this)]" by simp
        moreover have "list_all staging_call (Access (userDataDir this) # evs2)"
          using e2 by (simp add: staging_call_def)
        ultimately show "\<exists>staging p'. Access (userDataDir this) # evs2 @ evs3
                @ [Unlink p, Rm (tempDir this) (rmMaxRetries this)]
             = staging @ [StoreSave ?k, EmitRemoteSessionSaved, Unlink p',
                          Rm (tempDir this) (rmMaxRetries this)]
             \<and> list_all staging_call staging" by blast
      qed
      ultimately show ?thesis using tm by blast
    qed
  qed
qed

lemma afterAuthReady_timers:
  assumes "afterAuthReady F this w = (Inr this', w')"
  shows "timers w' = timers w @ [(next_timer w, backupSyncIntervalMs this)]
       \<and> next_timer w' = Suc (next_timer w)
       \<and> this' = this\<lparr>backupSync := Some (next_timer w)\<rparr>"
  using assms unfolding afterAuthReady_def
proof (cases rule: andThen_cases)
  case (ok b w1)
  then have w1: "timers w1 = timers w" "next_timer w1 = next_timer w"
    by (auto simp add: store_sessionExists_def Let_def split: if_splits)
  from ok(2) show ?thesis
  proof (cases rule: andThen_cases)
    case (ok u w2)
    have "timers w2 = timers w1 \<and> next_timer w2 = next_timer w1"
    proof (cases b)
      case True
      with ok(1) show ?thesis by (simp add: ret_def)
    next
      case False
      with ok(1) obtain w1' where "storeRemoteSession F this True w1' = (Inr u, w2)"
        "timers w1' = timers w1" "next_timer w1' = next_timer w1"
        by (auto simp add: andThen_def delay_def)
      with storeRemoteSession_world[OF this(1)] show ?thesis by simp
    qed
    with ok(2) w1 show ?thesis by (auto simp add: setInterval_def)
  qed simp
qed simp

lemma demo_this_fields:
  "userDataDir demo_this = demo_dir" "tempDir demo_this = demo_tmp"
  "dataPath demo_this = [''srv'', ''.wwebjs_auth'']" "sessionName demo_this = ''RemoteAuth-bot1''"
  "rmMaxRetries demo_this = 4" "backupSyncIntervalMs demo_this = 60000"
  by code_simp+

lemma demo_cycle_start:
  "isValidPath F (userDataDir demo_this) demo_w0 = (\<not> F [] (Access demo_dir), demo_w1)"
  by (simp add: demo_this_fields isValidPath_def fs_access_def effect_def Let_def demo_w0_def
      demo_w1_def demo_world_def demo_dir_def)

section \<open>The backup cycle\<close>

text \<open>
  Claim C1, as stated, fails: \<open>save\<close> is not called with the archive path that
  \<open>compressSession\<close> returned. In the example cycle compression returns
  \<open>/srv/.wwebjs_auth/RemoteAuth-bot1.zip\<close>, and the one \<open>save\<close> call of the cycle gets
  \<open>/srv/.wwebjs_auth/RemoteAuth-bot1\<close>.
\<close>

theorem save_argument_is_not_archive_path:
  "fst (compressSession no_faults demo_this demo_w1) = Inr demo_zip
   \<and> trace (snd (storeRemoteSession no_faults demo_this False demo_w0))
       = [Access demo_dir, CreateWriteStream demo_zip, Mkdir demo_tmp,
          Access (demo_dir @ [''Default'']),
          Cp (demo_dir @ [''Default'']) (demo_tmp @ [''Default'']),
          Access (demo_dir @ [''IndexedDB'']),
          Cp (demo_dir @ [''IndexedDB'']) (demo_tmp @ [''IndexedDB'']),
          Access (demo_dir @ [''Local Storage'']),
          Cp (demo_dir @ [''Local Storage'']) (demo_tmp @ [''Local Storage'']),
          ArchiveDirectory demo_tmp demo_zip,
          StoreSave [''srv'', ''.wwebjs_auth'', ''RemoteAuth-bot1''],
          Unlink demo_zip, Rm demo_tmp 4]"
  by code_simp

text \<open>
  Claim C1, amended. In every backup cycle in which staging and compression succeed,
  compression returns \<open><dataPath>/<sessionName>.zip\<close> and the store's \<open>save\<close> is called with
  the session key \<open><dataPath>/<sessionName>\<close> (that path without its \<open>.zip\<close>). Before that
  call the cycle has made staging calls only; the deletion of the archive and the removal
  of the staging directory come after it (and after the notification, if one is emitted).
\<close>

theorem save_gets_session_key_before_cleanup:
  assumes v: "isValidPath F (userDataDir this) w = (True, w1)"
      and c: "compressSession F this w1 = (Inr p, w2)"
  shows "p = dataPath this @ [sessionName this @ ''.zip''] \<and>
         (\<exists>staging notify.
            trace (snd (storeRemoteSession F this emit w))
              = trace w @ staging @ StoreSave (dataPath this @ [sessionName this]) # notify
                  @ [Unlink p, Rm (tempDir this) (rmMaxRetries this)]
            \<and> list_all staging_call staging
            \<and> Unlink p \<notin> set staging
            \<and> Rm (tempDir this) (rmMaxRetries this) \<notin> set staging
            \<and> (notify = [] \<or> notify = [EmitRemoteSessionSaved]))"
proof -
  let ?k = "dataPath this @ [sessionName this]"
  from compressSession_steps[OF c] have p: "p = dataPath this @ [sessionName this @ ''.zip'']"
    and s2: "steps staging_call w1 w2" by simp_all
  from steps_trans[OF isValidPath_steps[OF v] s2]
  obtain staging where st: "trace w2 = trace w @ staging" "list_all staging_call staging"
    by (auto simp add: steps_def)
  obtain r w3 where se: "andThen (store_save F ?k) (\<lambda>u. if emit then client_emit F else ret ()) w2 = (r, w3)"
    by (cases "andThen (store_save F ?k) (\<lambda>u. if emit then client_emit F else ret ()) w2")
  from save_emit_world[OF se] obtain notify where
    n: "trace w3 = trace w2 @ StoreSave ?k # notify" "notify = [] \<or> notify = [EmitRemoteSessionSaved]"
    by (auto split: if_splits)
  from storeRemoteSession_cases(3)[OF v c se]
  have "trace (snd (storeRemoteSession F this emit w))
          = trace w3 @ [Unlink p, Rm (tempDir this) (rmMaxRetries this)]"
    by (simp add: finally_world)
  moreover from st(2) have "Unlink p \<notin> set staging"
    and "Rm (tempDir this) (rmMaxRetries this) \<notin> set staging"
    by (auto simp add: list_all_iff staging_call_def)
  ultimately show ?thesis using st n p by auto
qed

theorem save_gets_session_key_before_cleanup_witness:
  "isValidPath no_faults (userDataDir demo_this) demo_w0 = (True, demo_w1)
   \<and> compressSession no_faults demo_this demo_w1 = (Inr demo_zip, demo_w2 no_faults)
   \<and> demo_zip = dataPath demo_this @ [sessionName demo_this @ ''.zip'']
   \<and> (\<exists>staging notify.
         trace (snd (storeRemoteSession no_faults demo_this True demo_w0))
           = trace demo_w0 @ staging @ StoreSave (dataPath demo_this @ [sessionName demo_this]) # notify
               @ [Unlink demo_zip, Rm (tempDir demo_this) (rmMaxRetries demo_this)]
         \<and> list_all staging_call staging
         \<and> Unlink demo_zip \<notin> set staging
         \<and> Rm (tempDir demo_this) (rmMaxRetries demo_this) \<notin> set staging
         \<and> (notify = [] \<or> notify = [EmitRemoteSessionSaved]))"
proof -
  have v: "isValidPath no_faults (userDataDir demo_this) demo_w0 = (True, demo_w1)"
    by (simp add: demo_cycle_start no_faults_def)
  have c: "compressSession no_faults demo_this demo_w1 = (Inr demo_zip, demo_w2 no_faults)"
    by code_simp
  from save_gets_session_key_before_cleanup[OF v c, of True] v c show ?thesis by simp
qed




section \<open>Readiness and the backup scheduler\<close>

lemma demo_recorded_fields:
  "sessionName (demo_recorded a) = ''RemoteAuth-bot1''"
  "backupSyncIntervalMs (demo_recorded a) = 60000"
  "sessionExists_reply (store (demo_recorded a)) h n"
  "\<not> sessionExists_reply (store demo_this) h n"
  by (simp_all add: demo_recorded_def demo_this_def initialised_def demo_config_def demo_store_def
      truthy_def interpolate_def config.extend_def strategy.fields_def Let_def)

text \<open>
  Claim C4, as stated, fails: when the store's \<open>save\<close> raises in the first backup cycle,
  the notification is not emitted and the error leaves \<open>afterAuthReady\<close> before
  \<open>setInterval\<close> is reached, so no scheduler is started.
\<close>

theorem failed_first_backup_starts_no_scheduler:
  "isl (fst (afterAuthReady save_fails demo_this demo_w0))
   \<and> projl (fst (afterAuthReady save_fails demo_this demo_w0))
       = Failed (StoreSave [''srv'', ''.wwebjs_auth'', ''RemoteAuth-bot1''])
   \<and> trace (snd (afterAuthReady save_fails demo_this demo_w0))
       = [StoreSessionExists ''RemoteAuth-bot1'', Delay 60000,
          Access demo_dir, CreateWriteStream demo_zip, Mkdir demo_tmp,
          Access (demo_dir @ [''Default'']),
          Cp (demo_dir @ [''Default'']) (demo_tmp @ [''Default'']),
          Access (demo_dir @ [''IndexedDB'']),
          Cp (demo_dir @ [''IndexedDB'']) (demo_tmp @ [''IndexedDB'']),
          Access (demo_dir @ [''Local Storage'']),
          Cp (demo_dir @ [''Local Storage'']) (demo_tmp @ [''Local Storage'']),
          ArchiveDirectory demo_tmp demo_zip,
          StoreSave [''srv'', ''.wwebjs_auth'', ''RemoteAuth-bot1''],
          Unlink demo_zip, Rm demo_tmp 4]
   \<and> timers (snd (afterAuthReady save_fails demo_this demo_w0)) = []"
  by code_simp

text \<open>
  Claim C4, amended. Take a readiness signal at which the existence query answers.
  If the store holds a record, no backup is made and the scheduler is started at once with
  the configured interval. If it holds none, the 60000 ms delay is awaited first and then
  one backup cycle runs, so every call of that cycle, \<open>save\<close> included, comes after the
  delay. If the cycle returns normally, then either the session directory was missing and
  nothing was saved, or \<open>save\<close> is followed at once by the notification and then by the
  two clean-up calls; after it the scheduler is started with the configured interval. If
  the cycle raises, the error is the outcome of \<open>afterAuthReady\<close> and no timer is started.
\<close>

theorem first_backup_after_settle_delay:
  assumes q: "\<not> F (trace w) (StoreSessionExists (sessionName this))"
  shows "(if sessionExists_reply (store this) (trace w) (sessionName this)
          then afterAuthReady F this w
                 = (Inr (this\<lparr>backupSync := Some (next_timer w)\<rparr>),
                    w\<lparr>trace := trace w @ [StoreSessionExists (sessionName this),
                                          SetInterval (next_timer w) (backupSyncIntervalMs this)],
                      timers := timers w @ [(next_timer w, backupSyncIntervalMs this)],
                      next_timer := Suc (next_timer w)\<rparr>)
          else (\<exists>r w1 evs.
                  storeRemoteSession F this True
                     (w\<lparr>trace := trace w @ [StoreSessionExists (sessionName this), Delay 60000]\<rparr>)
                    = (r, w1)
                \<and> trace w1 = trace w @ [StoreSessionExists (sessionName this), Delay 60000] @ evs
                \<and> timers w1 = timers w \<and> next_timer w1 = next_timer w
                \<and> (case r of
                      Inl e \<Rightarrow> afterAuthReady F this w = (Inl e, w1)
                    | Inr u \<Rightarrow>
                        (evs = [Access (userDataDir this)]
                          \<or> (\<exists>staging p.
                                evs = staging @ [StoreSave (dataPath this @ [sessionName this]),
                                                 EmitRemoteSessionSaved, Unlink p,
                                                 Rm (tempDir this) (rmMaxRetries this)]
                              \<and> list_all staging_call staging))
                       \<and> afterAuthReady F this w
                           = (Inr (this\<lparr>backupSync := Some (next_timer w)\<rparr>),
                              w1\<lparr>trace := trace w1 @ [SetInterval (next_timer w) (backupSyncIntervalMs this)],
                                 timers := timers w @ [(next_timer w, backupSyncIntervalMs this)],
                                 next_timer := Suc (next_timer w)\<rparr>))))"
proof (cases "sessionExists_reply (store this) (trace w) (sessionName this)")
  case True
  with q show ?thesis
    by (simp add: afterAuthReady_def andThen_def store_sessionExists_def ret_def setInterval_def Let_def)
next
  case False
  let ?w0 = "w\<lparr>trace := trace w @ [StoreSessionExists (sessionName this), Delay 60000]\<rparr>"
  obtain r w1 where s: "storeRemoteSession F this True ?w0 = (r, w1)"
    by (cases "storeRemoteSession F this True ?w0")
  from storeRemoteSession_world[OF s] obtain evs where
    w1: "timers w1 = timers w" "next_timer w1 = next_timer w"
        "trace w1 = trace w @ [StoreSessionExists (sessionName this), Delay 60000] @ evs"
    and ok: "r = Inr () \<longrightarrow>
                    evs = [Access (userDataDir this)]
                  \<or> (\<exists>staging p. evs = staging @ [StoreSave (dataPath this @ [sessionName this]),
                                                    EmitRemoteSessionSaved, Unlink p,
                                                    Rm (tempDir this) (rmMaxRetries this)]
                                  \<and> list_all staging_call staging)"
    by auto
  have a: "afterAuthReady F this w =
      (case r of Inl e \<Rightarrow> (Inl e, w1)
       | Inr u \<Rightarrow> (Inr (this\<lparr>backupSync := Some (next_timer w)\<rparr>),
                              w1\<lparr>trace := trace w1 @ [SetInterval (next_timer w) (backupSyncIntervalMs this)],
                                 timers := timers w @ [(next_timer w, backupSyncIntervalMs this)],
                                 next_timer := Suc (next_timer w)\<rparr>))"
    using q False s w1
    by (simp add: afterAuthReady_def andThen_def store_sessionExists_def ret_def setInterval_def
        delay_def Let_def split: sum.splits)
  have "case r of
          Inl e \<Rightarrow> afterAuthReady F this w = (Inl e, w1)
        | Inr u \<Rightarrow>
            (evs = [Access (userDataDir this)]
              \<or> (\<exists>staging p.
                    evs = staging @ [StoreSave (dataPath this @ [sessionName this]),
                                     EmitRemoteSessionSaved, Unlink p,
                                     Rm (tempDir this) (rmMaxRetries this)]
                  \<and> list_all staging_call staging))
           \<and> afterAuthReady F this w
               = (Inr (this\<lparr>backupSync := Some (next_timer w)\<rparr>),
                  w1\<lparr>trace := trace w1 @ [SetInterval (next_timer w) (backupSyncIntervalMs this)],
                     timers := timers w @ [(next_timer w, backupSyncIntervalMs this)],
                     next_timer := Suc (next_timer w)\<rparr>)"
    using a ok by (cases r) simp_all
  with s w1 False show ?thesis by auto
qed

theorem first_backup_after_settle_delay_witness:
  "\<not> no_faults (trace demo_w0) (StoreSessionExists (sessionName demo_this))
   \<and> \<not> sessionExists_reply (store demo_this) (trace demo_w0) (sessionName demo_this)
   \<and> (\<exists>r w1 evs.
         storeRemoteSession no_faults demo_this True
            (demo_w0\<lparr>trace := trace demo_w0 @ [StoreSessionExists (sessionName demo_this), Delay 60000]\<rparr>)
           = (r, w1)
       \<and> trace w1 = trace demo_w0 @ [StoreSessionExists (sessionName demo_this), Delay 60000] @ evs
       \<and> timers w1 = timers demo_w0 \<and> next_timer w1 = next_timer demo_w0
       \<and> (case r of
             Inl e \<Rightarrow> afterAuthReady no_faults demo_this demo_w0 = (Inl e, w1)
           | Inr u \<Rightarrow>
               (evs = [Access (userDataDir demo_this)]
                 \<or> (\<exists>staging p.
                       evs = staging @ [StoreSave (dataPath demo_this @ [sessionName demo_this]),
                                        EmitRemoteSessionSaved, Unlink p,
                                        Rm (tempDir demo_this) (rmMaxRetries demo_this)]
                     \<and> list_all staging_call staging))
              \<and> afterAuthReady no_faults demo_this demo_w0
                  = (Inr (demo_this\<lparr>backupSync := Some (next_timer demo_w0)\<rparr>),
                     w1\<lparr>trace := trace w1 @ [SetInterval (next_timer demo_w0) (backupSyncIntervalMs demo_this)],
                        timers := timers demo_w0 @ [(next_timer demo_w0, backupSyncIntervalMs demo_this)],
                        next_timer := Suc (next_timer demo_w0)\<rparr>)))
   \<and> trace (snd (afterAuthReady no_faults demo_this demo_w0))
       = [StoreSessionExists ''RemoteAuth-bot1'', Delay 60000,
          Access demo_dir, CreateWriteStream demo_zip, Mkdir demo_tmp,
          Access (demo_dir @ [''Default'']),
          Cp (demo_dir @ [''Default'']) (demo_tmp @ [''Default'']),
          Access (demo_dir @ [''IndexedDB'']),
          Cp (demo_dir @ [''IndexedDB'']) (demo_tmp @ [''IndexedDB'']),
          Access (demo_dir @ [''Local Storage'']),
          Cp (demo_dir @ [''Local Storage'']) (demo_tmp @ [''Local Storage'']),
          ArchiveDirectory demo_tmp demo_zip,
          StoreSave [''srv'', ''.wwebjs_auth'', ''RemoteAuth-bot1''],
          EmitRemoteSessionSaved,
          Unlink demo_zip, Rm demo_tmp 4, SetInterval 0 60000]
   \<and> \<not> no_faults (trace demo_w0) (StoreSessionExists (sessionName (demo_recorded (File []))))
   \<and> sessionExists_reply (store (demo_recorded (File []))) (trace demo_w0)
        (sessionName (demo_recorded (File [])))
   \<and> afterAuthReady no_faults (demo_recorded (File [])) demo_w0
       = (Inr ((demo_recorded (File []))\<lparr>backupSync := Some (next_timer demo_w0)\<rparr>),
          demo_w0\<lparr>trace := trace demo_w0 @ [StoreSessionExists (sessionName (demo_recorded (File []))),
                                            SetInterval (next_timer demo_w0)
                                              (backupSyncIntervalMs (demo_recorded (File [])))],
                  timers := timers demo_w0
                              @ [(next_timer demo_w0, backupSyncIntervalMs (demo_recorded (File [])))],
                  next_timer := Suc (next_timer demo_w0)\<rparr>)"
proof -
  have q: "\<not> no_faults h e" for h e
    by (simp add: no_faults_def)
  note absent = demo_recorded_fields(4)
  note present = demo_recorded_fields(3)
  have t: "trace (snd (afterAuthReady no_faults demo_this demo_w0))
       = [StoreSessionExists ''RemoteAuth-bot1'', Delay 60000,
          Access demo_dir, CreateWriteStream demo_zip, Mkdir demo_tmp,
          Access (demo_dir @ [''Default'']),
          Cp (demo_dir @ [''Default'']) (demo_tmp @ [''Default'']),
          Access (demo_dir @ [''IndexedDB'']),
          Cp (demo_dir @ [''IndexedDB'']) (demo_tmp @ [''IndexedDB'']),
          Access (demo_dir @ [''Local Storage'']),
          Cp (demo_dir @ [''Local Storage'']) (demo_tmp @ [''Local Storage'']),
          ArchiveDirectory demo_tmp demo_zip,
          StoreSave [''srv'', ''.wwebjs_auth'', ''RemoteAuth-bot1''],
          EmitRemoteSessionSaved,
          Unlink demo_zip, Rm demo_tmp 4, SetInterval 0 60000]"
    by code_simp
  from first_backup_after_settle_delay[where F = no_faults and w = demo_w0 and this = demo_this, OF q]
       first_backup_after_settle_delay[where F = no_faults and w = demo_w0
         and this = "demo_recorded (File [])", OF q]
       absent present q t
  show ?thesis by simp
qed

text \<open>
  Claim C9, as stated, fails: the scheduler-start step has no guard. A second readiness
  call sets a second interval timer and overwrites the stored handle, so two timers are
  active where the first call had left one.
\<close>

theorem scheduler_start_not_idempotent:
  "timers (snd (afterAuthReady no_faults (demo_recorded (File [])) demo_w0)) = [(0, 60000)]
   \<and> timers (snd (ready_twice no_faults (demo_recorded (File [])) demo_w0))
       = [(0, 60000), (1, 60000)]"
  by code_simp

text \<open>
  Claim C9, amended. When the scheduler-start step runs a second time (both calls
  returning normally), a second recurring timer with the configured interval is added
  beside the first, and the stored handle is the second one; \<open>destroy\<close> then clears the
  second timer only and the first stays active.
\<close>

theorem second_start_adds_a_timer:
  assumes "ready_twice F this w = (Inr this2, w2)"
  shows "timers w2 = timers w @ [(next_timer w, backupSyncIntervalMs this),
                                 (Suc (next_timer w), backupSyncIntervalMs this)]
       \<and> backupSync this2 = Some (Suc (next_timer w))
       \<and> timers (snd (destroy this2 w2))
           = filter (\<lambda>(j, ms). j \<noteq> Suc (next_timer w)) (timers w)
             @ [(next_timer w, backupSyncIntervalMs this)]"
  using assms unfolding ready_twice_def
proof (cases rule: andThen_cases)
  case (ok this1 w1)
  from afterAuthReady_timers[OF ok(1)] afterAuthReady_timers[OF ok(2)]
  show ?thesis by (simp add: destroy_def clearInterval_def)
qed simp

theorem second_start_adds_a_timer_witness:
  "ready_twice no_faults (demo_recorded (File [])) demo_w0
     = (Inr ((demo_recorded (File []))\<lparr>backupSync := Some 1\<rparr>),
        demo_w0\<lparr>trace := [StoreSessionExists ''RemoteAuth-bot1'', SetInterval 0 60000,
                           StoreSessionExists ''RemoteAuth-bot1'', SetInterval 1 60000],
                timers := [(0, 60000), (1, 60000)], next_timer := 2\<rparr>)
   \<and> timers (demo_w0\<lparr>trace := [StoreSessionExists ''RemoteAuth-bot1'', SetInterval 0 60000,
                           StoreSessionExists ''RemoteAuth-bot1'', SetInterval 1 60000],
                timers := [(0, 60000), (1, 60000)], next_timer := 2\<rparr>)
       = timers demo_w0 @ [(next_timer demo_w0, backupSyncIntervalMs (demo_recorded (File []))),
                           (Suc (next_timer demo_w0), backupSyncIntervalMs (demo_recorded (File [])))]
   \<and> backupSync ((demo_recorded (File []))\<lparr>backupSync := Some 1\<rparr>) = Some (Suc (next_timer demo_w0))
   \<and> timers (snd (destroy ((demo_recorded (File []))\<lparr>backupSync := Some 1\<rparr>)
                (demo_w0\<lparr>trace := [StoreSessionExists ''RemoteAuth-bot1'', SetInterval 0 60000,
                           StoreSessionExists ''RemoteAuth-bot1'', SetInterval 1 60000],
                timers := [(0, 60000), (1, 60000)], next_timer := 2\<rparr>)))
       = filter (\<lambda>(j, ms). j \<noteq> Suc (next_timer demo_w0)) (timers demo_w0)
         @ [(next_timer demo_w0, backupSyncIntervalMs (demo_recorded (File [])))]"
proof -
  have q: "\<not> no_faults h e" for h e
    by (simp add: no_faults_def)
  have w: "trace demo_w0 = []" "timers demo_w0 = []" "next_timer demo_w0 = 0"
    by (simp_all add: demo_w0_def demo_world_def)
  have r: "ready_twice no_faults (demo_recorded (File [])) demo_w0
     = (Inr ((demo_recorded (File []))\<lparr>backupSync := Some 1\<rparr>),
        demo_w0\<lparr>trace := [StoreSessionExists ''RemoteAuth-bot1'', SetInterval 0 60000,
                           StoreSessionExists ''RemoteAuth-bot1'', SetInterval 1 60000],
                timers := [(0, 60000), (1, 60000)], next_timer := 2\<rparr>)"
    by (simp add: ready_twice_def afterAuthReady_def andThen_def store_sessionExists_def ret_def
        setInterval_def Let_def q w demo_recorded_fields)
  from second_start_adds_a_timer[OF r] r show ?thesis by simp
qed

section \<open>Facts about staging, archives and recovery\<close>

lemma place_child:
  "lookup T t = Some (Dir es) \<Longrightarrow> place (T @ [d]) x t = Some t' \<Longrightarrow>
     lookup T t' = Some (Dir (AList.update d x es))"
proof (induction T arbitrary: t t')
  case Nil
  then show ?case by simp
next
  case (Cons c cs)
  show ?case
  proof (cases t)
    case (Dir ds)
    with Cons.prems obtain m m' where
      m: "map_of ds c = Some m" "place (cs @ [d]) x m = Some m'" "t' = Dir (AList.update c m' ds)"
      by (cases "cs @ [d]") (auto split: option.splits)
    from Cons.prems(1) Dir m(1) have "lookup cs m = Some (Dir es)" by simp
    from Cons.IH[OF this m(2)] m(3) show ?thesis by (simp add: update_conv')
  next
    case (File s)
    with Cons.prems show ?thesis by simp
  next
    case (Zip zs)
    with Cons.prems show ?thesis by simp
  qed
qed

lemma unlink_removes:
  "fs_unlink F p w = (Inr u, w') \<Longrightarrow> files w' = remove p (files w)"
  by (auto simp add: fs_unlink_def dest!: effect_Inr split: option.splits node.splits)

lemma unzip_extract_trace:
  "unzip_extract F z dest w = (r, w') \<Longrightarrow> trace w' = trace w @ [UnzipExtract z dest]"
  by (auto simp add: unzip_extract_def Let_def split: option.splits node.splits if_splits)

lemma unzip_extract_Zip:
  assumes "unzip_extract F z dest w = (Inr u, w')" and "lookup z (files w) = Some (Zip es)"
  shows "files w' = extracted F (trace w) dest es (files w)"
  using assms by (auto simp add: unzip_extract_def Let_def split: if_splits)

text \<open>Writing a file below one child of a directory leaves its other children alone, and so
  does an extraction none of whose entries has their name.\<close>

lemma mkdirp_below:
  assumes "mkdirp p t = Some t'" and "q \<noteq> []"
  shows "lookup (p @ q) t' = lookup (p @ q) t"
  using mkdirp_same[OF assms(1)] assms(2)
  by (cases "lookup p t") (simp_all add: lookup_append[of p q] lookup_below_leaf)

lemma write_file_frame:
  assumes "a \<noteq> b"
  shows "lookup (D @ a # r) (write_file (D @ b # r') n t) = lookup (D @ a # r) t"
proof (cases "mkdirp (butlast (D @ b # r')) t")
  case None
  then show ?thesis by (simp add: write_file_def)
next
  case (Some t')
  have m: "lookup (D @ a # r) t' = lookup (D @ a # r) t"
  proof (cases "r' = []")
    case True
    with Some have "mkdirp D t = Some t'" by (simp add: butlast_append)
    from mkdirp_below[OF this, of "a # r"] show ?thesis by simp
  next
    case False
    with Some have "mkdirp (D @ b # butlast r') t = Some t'" by (simp add: butlast_append)
    from mkdirp_frame[OF this assms] show ?thesis .
  qed
  show ?thesis
  proof (cases "place (D @ b # r') n t'")
    case None
    with Some m show ?thesis
      by (simp add: write_file_def split: option.splits node.splits)
  next
    case (Some t'')
    from lookup_place_frame[OF Some assms] m
    have "lookup (D @ a # r) t'' = lookup (D @ a # r) t" by simp
    with \<open>mkdirp (butlast (D @ b # r')) t = Some t'\<close> Some m show ?thesis
      by (simp add: write_file_def split: option.splits node.splits)
  qed
qed

lemma files_of_below:
  "(p, n) \<in> set (files_of base t) \<Longrightarrow> \<exists>r. p = base @ r"
proof (induction base t arbitrary: p n rule: files_of.induct)
  case (1 b es)
  from "1.prems" obtain k m where km: "(k, m) \<in> set es" "(p, n) \<in> set (files_of (b @ [k]) m)"
    by auto
  from "1.IH"[OF km(1) refl km(2)] show ?case by auto
qed auto

lemma files_of_entries:
  assumes "(p, n) \<in> set (files_of base (Dir es))"
  shows "\<exists>k r. k \<in> fst ` set es \<and> p = base @ k # r"
proof -
  from assms obtain k m where km: "(k, m) \<in> set es" "(p, n) \<in> set (files_of (base @ [k]) m)"
    by auto
  from files_of_below[OF km(2)] obtain r where "p = base @ k # r" by auto
  with km(1) show ?thesis by force
qed

lemma fold_write_frame:
  assumes "\<forall>(p, n) \<in> set ps. \<exists>k r. k \<noteq> a \<and> p = D @ k # r"
  shows "lookup (D @ a # r0)
           (fold (\<lambda>(p, n) t'. if F h (WriteEntry p) then t' else write_file p n t') ps t)
         = lookup (D @ a # r0) t"
  using assms
proof (induction ps arbitrary: t)
  case Nil
  show ?case by simp
next
  case (Cons x ps)
  obtain p n where x: "x = (p, n)" by (cases x)
  with Cons.prems obtain k r where k: "k \<noteq> a" "p = D @ k # r" by auto
  from Cons.prems have "\<forall>(p, n) \<in> set ps. \<exists>k r. k \<noteq> a \<and> p = D @ k # r" by simp
  from Cons.IH[OF this] x k write_file_frame[of a k D r0 r n t]
  show ?case by simp
qed

lemma extracted_frame:
  assumes "a \<notin> fst ` set es"
  shows "lookup (D @ a # r0) (extracted F h D es t) = lookup (D @ a # r0) t"
proof -
  have "\<forall>(p, n) \<in> set (files_of D (Dir es)). \<exists>k r. k \<noteq> a \<and> p = D @ k # r"
  proof (clarify)
    fix p n
    assume "(p, n) \<in> set (files_of D (Dir es))"
    from files_of_entries[OF this] assms show "\<exists>k r. k \<noteq> a \<and> p = D @ k # r" by auto
  qed
  from fold_write_frame[OF this] show ?thesis by (simp add: extracted_def)
qed

lemma lookup_parent_Dir:
  assumes "lookup (r @ [c]) t = Some x"
  shows "\<exists>ds. lookup r t = Some (Dir ds)"
proof (cases "lookup r t")
  case None
  with assms lookup_append[of r "[c]" t] show ?thesis by simp
next
  case (Some n)
  with assms lookup_append[of r "[c]" t] show ?thesis by (cases n) simp_all
qed

lemma mkdirp_existing:
  "lookup r t = Some (Dir ds) \<Longrightarrow> mkdirp r t \<noteq> None"
proof (induction r arbitrary: t)
  case Nil
  then show ?case by simp
next
  case (Cons c cs)
  then show ?case by (cases t) (auto split: option.splits)
qed

lemma mkdirp_extend:
  "mkdirp r t \<noteq> None \<Longrightarrow> lookup (r @ [c]) t = None \<Longrightarrow> mkdirp (r @ [c]) t \<noteq> None"
proof (induction r arbitrary: t)
  case Nil
  then show ?case by (cases t) (auto split: option.splits)
next
  case (Cons d ds)
  show ?case
  proof (cases t)
    case (Dir es)
    let ?m = "case map_of es d of None \<Rightarrow> Dir [] | Some m \<Rightarrow> m"
    from Cons.prems(1) Dir have m: "mkdirp ds ?m \<noteq> None" by (auto split: option.splits)
    from Cons.prems(2) Dir have "lookup (ds @ [c]) ?m = None"
      by (cases "map_of es d") (simp_all add: lookup_below_leaf)
    from Cons.IH[OF m this] Dir show ?thesis by (auto split: option.splits)
  next
    case (File s)
    with Cons.prems show ?thesis by simp
  next
    case (Zip zs)
    with Cons.prems show ?thesis by simp
  qed
qed

lemma mkdirp_prefix:
  "mkdirp (r @ s) t \<noteq> None \<Longrightarrow> mkdirp r t \<noteq> None"
proof (induction r arbitrary: t)
  case Nil
  then show ?case by (cases t) (simp_all add: mkdirp_leaf)
next
  case (Cons d ds)
  show ?case
  proof (cases t)
    case (Dir es)
    let ?m = "case map_of es d of None \<Rightarrow> Dir [] | Some m \<Rightarrow> m"
    from Cons.prems Dir have "mkdirp (ds @ s) ?m \<noteq> None" by (auto split: option.splits)
    from Cons.IH[OF this] Dir show ?thesis by (auto split: option.splits)
  next
    case (File s)
    with Cons.prems show ?thesis by simp
  next
    case (Zip zs)
    with Cons.prems show ?thesis by simp
  qed
qed

lemma place_child_ok:
  "lookup r t = Some (Dir ds) \<Longrightarrow> place (r @ [c]) x t \<noteq> None"
proof (induction r arbitrary: t)
  case Nil
  then show ?case by simp
next
  case (Cons d ds')
  show ?case
  proof (cases t)
    case (Dir es)
    with Cons.prems obtain m where m: "map_of es d = Some m" "lookup ds' m = Some (Dir ds)"
      by (auto split: option.splits)
    from Cons.IH[OF m(2)] m(1) Dir show ?thesis
      by (cases "ds' @ [c]") (auto split: option.splits)
  next
    case (File s)
    with Cons.prems show ?thesis by simp
  next
    case (Zip zs)
    with Cons.prems show ?thesis by simp
  qed
qed


lemma mkdirp_result_Dir:
  "mkdirp r t = Some t' \<Longrightarrow> \<exists>ds. lookup r t' = Some (Dir ds)"
proof (induction r arbitrary: t t')
  case Nil
  then show ?case by (cases t) auto
next
  case (Cons c cs)
  show ?case
  proof (cases t)
    case (Dir es)
    with Cons.prems obtain m' where
      m: "mkdirp cs (case map_of es c of None \<Rightarrow> Dir [] | Some m \<Rightarrow> m) = Some m'"
         "t' = Dir (AList.update c m' es)"
      by (auto split: option.splits)
    from Cons.IH[OF m(1)] m(2) show ?thesis by (simp add: update_conv')
  next
    case (File s)
    with Cons.prems show ?thesis by simp
  next
    case (Zip zs)
    with Cons.prems show ?thesis by simp
  qed
qed

lemma write_file_new:
  assumes c: "c \<noteq> []" and new: "lookup c t = None" and up: "mkdirp (butlast c) t \<noteq> None"
  shows "lookup c (write_file c n t) = Some n"
    and "mkdirp (butlast c) (write_file c n t) \<noteq> None"
proof -
  from c have split: "c = butlast c @ [last c]" by simp
  from up obtain t1 where t1: "mkdirp (butlast c) t = Some t1" by auto
  from mkdirp_below[OF t1, of "[last c]"] split new have n1: "lookup c t1 = None" by simp
  from mkdirp_result_Dir[OF t1] obtain ds where d1: "lookup (butlast c) t1 = Some (Dir ds)" by blast
  from place_child_ok[OF d1, of "last c" n] split obtain t2 where t2: "place c n t1 = Some t2"
    by auto
  from t1 n1 t2 have w: "write_file c n t = t2" by (simp add: write_file_def)
  from lookup_place_same[OF t2] w show "lookup c (write_file c n t) = Some n" by simp
  from t2 split have "place (butlast c @ [last c]) n t1 = Some t2" by simp
  from place_child[OF d1 this] have "lookup (butlast c) t2 = Some (Dir (AList.update (last c) n ds))" .
  from mkdirp_existing[OF this] w show "mkdirp (butlast c) (write_file c n t) \<noteq> None" by simp
qed

lemma files_of_lookup:
  "lookup q n = Some m \<Longrightarrow> \<forall>ds. m \<noteq> Dir ds \<Longrightarrow> (base @ q, m) \<in> set (files_of base n)"
proof (induction q arbitrary: base n)
  case Nil
  then show ?case by (cases m) simp_all
next
  case (Cons k ks)
  show ?case
  proof (cases n)
    case (Dir es)
    with Cons.prems(1) obtain x where x: "map_of es k = Some x" "lookup ks x = Some m"
      by (auto split: option.splits)
    from Cons.IH[OF x(2) Cons.prems(2), of "base @ [k]"] map_of_SomeD[OF x(1)] Dir
    show ?thesis by force
  next
    case (File s)
    with Cons.prems show ?thesis by simp
  next
    case (Zip zs)
    with Cons.prems show ?thesis by simp
  qed
qed

text \<open>When every write is complete, an extraction into a place that is free puts every
  regular file of the archive there.\<close>

lemma children_written:
  assumes each: "\<And>k n t. (k, n) \<in> set es \<Longrightarrow> lookup (p @ [k]) t = None \<Longrightarrow> mkdirp p t \<noteq> None \<Longrightarrow>
             (\<forall>(q, m) \<in> set (files_of (p @ [k]) n).
                 lookup q (fold (\<lambda>(p, n) t'. if F h (WriteEntry p) then t' else write_file p n t')
                             (files_of (p @ [k]) n) t) = Some m)
           \<and> mkdirp p (fold (\<lambda>(p, n) t'. if F h (WriteEntry p) then t' else write_file p n t')
                          (files_of (p @ [k]) n) t) \<noteq> None"
    and dist: "distinct (map fst es)"
    and up: "mkdirp p t \<noteq> None"
    and new: "\<forall>(k, n) \<in> set es. lookup (p @ [k]) t = None"
  shows "(\<forall>(q, m) \<in> set (files_of p (Dir es)).
            lookup q (fold (\<lambda>(p, n) t'. if F h (WriteEntry p) then t' else write_file p n t')
                        (files_of p (Dir es)) t) = Some m)
       \<and> mkdirp p (fold (\<lambda>(p, n) t'. if F h (WriteEntry p) then t' else write_file p n t')
                     (files_of p (Dir es)) t) \<noteq> None"
  using each dist up new
proof (induction es arbitrary: t)
  case Nil
  then show ?case by simp
next
  case (Cons e rest)
  let ?f = "\<lambda>(p, n) t'. if F h (WriteEntry p) then t' else write_file p n t'"
  obtain k n where e: "e = (k, n)" by (cases e)
  let ?t1 = "fold ?f (files_of (p @ [k]) n) t"
  let ?t2 = "fold ?f (files_of p (Dir rest)) ?t1"
  have whole: "fold ?f (files_of p (Dir (e # rest))) t = ?t2"
    by (simp add: e)
  from Cons.prems(4) e have newk: "lookup (p @ [k]) t = None" by simp
  from Cons.prems(1)[of k n t] e newk Cons.prems(3)
  have k1: "\<forall>(q, m) \<in> set (files_of (p @ [k]) n). lookup q ?t1 = Some m"
    and up1: "mkdirp p ?t1 \<noteq> None"
    by simp_all
  from Cons.prems(2) e have dist': "distinct (map fst rest)" and knew: "k \<notin> fst ` set rest"
    by simp_all
  have first: "\<forall>(q, m) \<in> set (files_of (p @ [k]) n). \<exists>k' r. k' \<noteq> a \<and> q = p @ k' # r" if "a \<noteq> k" for a
  proof clarify
    fix q m
    assume "(q, m) \<in> set (files_of (p @ [k]) n)"
    from files_of_below[OF this] that show "\<exists>k' r. k' \<noteq> a \<and> q = p @ k' # r" by auto
  qed
  have new1: "\<forall>(k', n') \<in> set rest. lookup (p @ [k']) ?t1 = None"
  proof clarify
    fix k' n'
    assume in_rest: "(k', n') \<in> set rest"
    with knew have "k' \<noteq> k" by force
    from fold_write_frame[OF first[OF this], of "[]" F h t] Cons.prems(4) in_rest
    show "lookup (p @ [k']) ?t1 = None" by auto
  qed
  have each': "\<And>k n t. (k, n) \<in> set rest \<Longrightarrow> lookup (p @ [k]) t = None \<Longrightarrow> mkdirp p t \<noteq> None \<Longrightarrow>
             (\<forall>(q, m) \<in> set (files_of (p @ [k]) n). lookup q (fold ?f (files_of (p @ [k]) n) t) = Some m)
           \<and> mkdirp p (fold ?f (files_of (p @ [k]) n) t) \<noteq> None"
    using Cons.prems(1) by simp
  from Cons.IH[OF each' dist' up1 new1]
  have r2: "\<forall>(q, m) \<in> set (files_of p (Dir rest)). lookup q ?t2 = Some m"
    and up2: "mkdirp p ?t2 \<noteq> None"
    by simp_all
  have later: "\<forall>(q, m) \<in> set (files_of p (Dir rest)). \<exists>k' r. k' \<noteq> k \<and> q = p @ k' # r"
  proof clarify
    fix q m
    assume "(q, m) \<in> set (files_of p (Dir rest))"
    from files_of_entries[OF this] knew show "\<exists>k' r. k' \<noteq> k \<and> q = p @ k' # r" by auto
  qed
  have k2: "\<forall>(q, m) \<in> set (files_of (p @ [k]) n). lookup q ?t2 = Some m"
  proof clarify
    fix q m
    assume qm: "(q, m) \<in> set (files_of (p @ [k]) n)"
    from files_of_below[OF this] obtain r where q: "q = p @ k # r" by auto
    from fold_write_frame[OF later, of r F h ?t1] q k1 qm
    show "lookup q ?t2 = Some m" by auto
  qed
  have "\<forall>(q, m) \<in> set (files_of p (Dir (e # rest))). lookup q ?t2 = Some m"
    using k2 r2 by (auto simp add: e)
  with up2 whole show ?case by simp
qed

lemma files_written:
  assumes complete: "\<forall>p. \<not> F h (WriteEntry p)"
  shows "well_formed n \<Longrightarrow> c \<noteq> [] \<Longrightarrow> lookup c t = None \<Longrightarrow> mkdirp (butlast c) t \<noteq> None \<Longrightarrow>
     (\<forall>(q, m) \<in> set (files_of c n).
         lookup q (fold (\<lambda>(p, n) t'. if F h (WriteEntry p) then t' else write_file p n t')
                     (files_of c n) t) = Some m)
     \<and> mkdirp (butlast c) (fold (\<lambda>(p, n) t'. if F h (WriteEntry p) then t' else write_file p n t')
                              (files_of c n) t) \<noteq> None"
proof (induction c n arbitrary: t rule: files_of.induct)
  case (1 p es)
  let ?f = "\<lambda>(p, n) t'. if F h (WriteEntry p) then t' else write_file p n t'"
  from "1.prems"(2) have split: "p = butlast p @ [last p]" by simp
  from mkdirp_extend[OF "1.prems"(4), of "last p"] split "1.prems"(3)
  have up: "mkdirp p t \<noteq> None" by simp
  have new: "\<forall>(k, n) \<in> set es. lookup (p @ [k]) t = None"
    using "1.prems"(3) by (simp add: lookup_append[of p])
  have each: "\<And>k n t. (k, n) \<in> set es \<Longrightarrow> lookup (p @ [k]) t = None \<Longrightarrow> mkdirp p t \<noteq> None \<Longrightarrow>
             (\<forall>(q, m) \<in> set (files_of (p @ [k]) n). lookup q (fold ?f (files_of (p @ [k]) n) t) = Some m)
           \<and> mkdirp p (fold ?f (files_of (p @ [k]) n) t) \<noteq> None"
  proof -
    fix k n t
    assume kn: "(k, n) \<in> set es" and a: "lookup (p @ [k]) t = None" and b: "mkdirp p t \<noteq> None"
    from "1.prems"(1) kn have "well_formed n" by (auto simp add: list_all_iff)
    from "1.IH"[OF kn refl this _ a] b
    show "(\<forall>(q, m) \<in> set (files_of (p @ [k]) n). lookup q (fold ?f (files_of (p @ [k]) n) t) = Some m)
           \<and> mkdirp p (fold ?f (files_of (p @ [k]) n) t) \<noteq> None"
      by simp
  qed
  from "1.prems"(1) have dist: "distinct (map fst es)" by simp
  from children_written[where F = F and h = h and p = p and es = es and t = t, OF each dist up new]
  have c: "\<forall>(q, m) \<in> set (files_of p (Dir es)). lookup q (fold ?f (files_of p (Dir es)) t) = Some m"
    and u: "mkdirp p (fold ?f (files_of p (Dir es)) t) \<noteq> None"
    by simp_all
  from u split mkdirp_prefix[of "butlast p" "[last p]" "fold ?f (files_of p (Dir es)) t"]
  have "mkdirp (butlast p) (fold ?f (files_of p (Dir es)) t) \<noteq> None" by simp
  with c show ?case by simp
qed (simp_all add: complete write_file_new)

text \<open>\<open>compressSession\<close> resolves only on a stream that was opened.\<close>

lemma compressSession_Inr:
  assumes "compressSession F this w = (Inr p, w')"
  obtains w1 where
    "fs_createWriteStream F (dataPath this @ [sessionName this @ ''.zip'']) w = (True, w1)"
    "andThen (copyByRequiredDirs F this)
       (\<lambda>u. andThen (archive_directory F (tempDir this) (dataPath this @ [sessionName this @ ''.zip'']))
               (\<lambda>u. ret (dataPath this @ [sessionName this @ ''.zip'']))) w1 = (Inr p, w')"
proof -
  let ?Z = "dataPath this @ [sessionName this @ ''.zip'']"
  obtain opened w1 where o: "fs_createWriteStream F ?Z w = (opened, w1)"
    by (cases "fs_createWriteStream F ?Z w")
  show thesis
  proof (cases opened)
    case False
    with o assms compressSession_unopened[of F this w w1] show ?thesis by simp
  next
    case True
    with o assms compressSession_opened[of F this w w1] that[of w1] show ?thesis by simp
  qed
qed

lemma archive_directory_Inr:
  assumes "archive_directory F src out w = (Inr u, w')"
  shows "\<exists>es. lookup src (files w) = Some (Dir es) \<and> place out (Zip es) (files w) = Some (files w')"
proof -
  from effect_Inr[OF assms[unfolded archive_directory_def]]
  obtain t where t: "(case lookup src (files w) of
              Some (Dir es) \<Rightarrow>
                (case lookup out (files w) of Some (Dir ds) \<Rightarrow> None | _ \<Rightarrow> place out (Zip es) (files w))
            | _ \<Rightarrow> None) = Some t" "files w' = t"
    by auto
  then show ?thesis by (auto split: option.splits node.splits)
qed

lemma compressSession_archive:
  assumes "compressSession F this w = (Inr p, w')"
  shows "\<exists>es. lookup p (files w') = Some (Zip es)"
  using assms
proof (cases rule: compressSession_Inr)
  case (1 w1)
  from 1(2) show ?thesis
  proof (cases rule: andThen_cases)
    case (ok x w2)
    from ok(2) show ?thesis
    proof (cases rule: andThen_cases)
      case (ok y w3)
      then have e: "p = dataPath this @ [sessionName this @ ''.zip'']" "w' = w3"
        by (simp_all add: ret_def)
      from archive_directory_Inr[OF ok(1)] obtain es where
        "place (dataPath this @ [sessionName this @ ''.zip'']) (Zip es) (files w2) = Some (files w3)"
        by blast
      from lookup_place_same[OF this] e show ?thesis by auto
    qed simp
  qed simp
qed

lemma finally_unlinks:
  assumes "lookup p (files w) = Some (Zip es)" and "\<not> F (trace w) (Unlink p)" and "p \<noteq> []"
  shows "lookup p (files (storeRemoteSession_finally F this (Some p) w)) = None"
proof -
  have "lookup p (files (snd (fs_unlink F p w))) = None"
    using assms by (simp add: fs_unlink_def effect_def Let_def lookup_remove_same)
  then show ?thesis
    by (simp add: storeRemoteSession_finally_def swallow_def fs_rm_def effect_def Let_def
        lookup_remove_None)
qed

lemma copyDirs_stage:
  assumes acc: "\<forall>h p. \<not> F h (Access p)" and ab: "a \<noteq> b"
    and run: "copyDirs F (D @ [a]) (D @ [b]) dirs w = (Inr u, w')"
    and T0: "lookup (D @ [b]) (files w) = Some (Dir es)"
    and new: "\<forall>d \<in> set dirs. map_of es d = None" and dist: "distinct dirs"
  shows "lookup (D @ [b]) (files w')
           = Some (Dir (staged (\<lambda>d. lookup (D @ [a, d]) (files w)) dirs es))
       \<and> (\<forall>c r. c \<noteq> b \<longrightarrow> lookup (D @ c # r) (files w') = lookup (D @ c # r) (files w))"
  using run T0 new dist
proof (induction dirs arbitrary: w es)
  case Nil
  then show ?case by simp
next
  case (Cons d ds)
  obtain ex w1 where v: "isValidPath F ((D @ [a]) @ [d]) w = (ex, w1)"
    by (cases "isValidPath F ((D @ [a]) @ [d]) w")
  from isValidPath_world[OF v] acc
  have w1: "files w1 = files w" and ex: "ex = (lookup (D @ [a, d]) (files w) \<noteq> None)" by simp_all
  from Cons.prems(3,4) have new': "\<forall>d \<in> set ds. map_of es d = None" and dist': "distinct ds"
    and d: "map_of es d = None" "d \<notin> set ds"
    by simp_all
  show ?case
  proof (cases ex)
    case False
    with Cons.prems(1) v have "copyDirs F (D @ [a]) (D @ [b]) ds w1 = (Inr u, w')" by simp
    from Cons.IH[OF this _ new' dist'] Cons.prems(2) w1 False ex show ?thesis by simp
  next
    case True
    with ex obtain n where n: "lookup (D @ [a, d]) (files w) = Some n" by auto
    obtain c w2 where cp: "fs_cp F ((D @ [a]) @ [d]) ((D @ [b]) @ [d]) w1 = (c, w2)"
      by (cases "fs_cp F ((D @ [a]) @ [d]) ((D @ [b]) @ [d]) w1")
    with Cons.prems(1) v True have c: "c = Inr ()" and rest: "copyDirs F (D @ [a]) (D @ [b]) ds w2 = (Inr u, w')"
      by (auto split: sum.splits)
    have at: "lookup ((D @ [b]) @ [d]) (files w) = None"
      using Cons.prems(2) d(1) by (simp only: lookup_append[of "D @ [b]"]) simp
    from effect_Inr[OF cp[unfolded c fs_cp_def]]
    obtain t where "(case lookup ((D @ [a]) @ [d]) (files w1) of
              None \<Rightarrow> None
            | Some s \<Rightarrow>
                if take (length ((D @ [a]) @ [d])) ((D @ [b]) @ [d]) = (D @ [a]) @ [d] then None
                else (case lookup ((D @ [b]) @ [d]) (files w1) of
                        None \<Rightarrow> place ((D @ [b]) @ [d]) s (files w1)
                      | Some dd \<Rightarrow> if clash dd s then None
                                   else place ((D @ [b]) @ [d]) (overlay dd s) (files w1))) = Some t"
       "files w2 = t"
      by auto
    with n w1 at have pl: "place ((D @ [b]) @ [d]) n (files w) = Some (files w2)"
      by (simp split: if_splits)
    from place_child[OF Cons.prems(2) pl]
    have T2: "lookup (D @ [b]) (files w2) = Some (Dir (AList.update d n es))" .
    have frame: "lookup (D @ c # r) (files w2) = lookup (D @ c # r) (files w)" if "c \<noteq> b" for c r
      using lookup_place_frame[of D b "[d]" n "files w" "files w2" c r] pl that by simp
    from frame[OF ab] have src: "(\<lambda>d. lookup (D @ [a, d]) (files w2)) = (\<lambda>d. lookup (D @ [a, d]) (files w))"
      by simp
    have new2: "\<forall>d' \<in> set ds. map_of (AList.update d n es) d' = None"
      using new' d(2) by (auto simp add: update_conv')
    from Cons.IH[OF rest T2 new2 dist'] src n frame show ?thesis by simp
  qed
qed

lemma RemoteAuth_layout:
  assumes "RemoteAuth d resolve opts = Inr cfg"
  shows "requiredDirs cfg = [''Default'', ''IndexedDB'', ''Local Storage'']"
    and "\<exists>tmp. tempDir cfg = dataPath cfg @ [tmp] \<and> tmp \<noteq> sessionName (initialised cfg)
               \<and> tmp \<noteq> sessionName (initialised cfg) @ ''.zip''"
  using assms
  by (auto simp add: RemoteAuth_def initialised_def Let_def config.extend_def strategy.fields_def
      split: if_splits option.splits)

lemma initialised_fields:
  "userDataDir (initialised cfg) = dataPath cfg @ [sessionName (initialised cfg)]"
  "dataPath (initialised cfg) = dataPath cfg" "tempDir (initialised cfg) = tempDir cfg"
  "requiredDirs (initialised cfg) = requiredDirs cfg" "rmMaxRetries (initialised cfg) = rmMaxRetries cfg"
  "store (initialised cfg) = store cfg"
  "sessionName (initialised cfg) = (if truthy (clientId cfg)
                            then ''RemoteAuth-'' @ interpolate (clientId cfg) else ''RemoteAuth'')"
  by (simp_all add: initialised_def Let_def config.extend_def strategy.fields_def)

lemma rm_removes:
  "fs_rm F p n w = (Inr u, w') \<Longrightarrow> files w' = remove p (files w)"
  by (auto simp add: fs_rm_def dest!: effect_Inr)

lemma createWriteStream_files:
  assumes "fs_createWriteStream F p w = (opened, w1)"
  shows "files w1 = files w \<or> place p (File []) (files w) = Some (files w1)"
proof (cases opened)
  case True
  with assms obtain u where "effect F (CreateWriteStream p)
             (\<lambda>t. case lookup p t of Some (Dir es) \<Rightarrow> None | _ \<Rightarrow> place p (File []) t) w = (Inr u, w1)"
    by (auto simp add: fs_createWriteStream_def split: prod.splits sum.splits)
  from effect_Inr[OF this] show ?thesis
    by (auto split: option.splits node.splits)
next
  case False
  with assms obtain e where "effect F (CreateWriteStream p)
             (\<lambda>t. case lookup p t of Some (Dir es) \<Rightarrow> None | _ \<Rightarrow> place p (File []) t) w = (Inl e, w1)"
    by (auto simp add: fs_createWriteStream_def split: prod.splits sum.splits)
  from effect_Inl[OF this] show ?thesis by simp
qed

lemma compressSession_stage:
  assumes acc: "\<forall>h p. \<not> F h (Access p)"
    and U: "userDataDir this = D @ [a]" and T: "tempDir this = D @ [b]"
    and Dp: "dataPath this = D" and a: "sessionName this = a"
    and ab: "a \<noteq> b" and zb: "a @ ''.zip'' \<noteq> b"
    and fresh: "lookup (D @ [b]) (files w) = None"
    and dist: "distinct (requiredDirs this)"
    and run: "compressSession F this w = (Inr p, w')"
  shows "p = D @ [a @ ''.zip'']"
    and "lookup p (files w')
           = Some (Zip (staged (\<lambda>d. lookup (D @ [a, d]) (files w)) (requiredDirs this) []))"
    and "\<forall>r. lookup (D @ a # r) (files w') = lookup (D @ a # r) (files w)"
proof -
  let ?Z = "D @ [a @ ''.zip'']"
  from run obtain w1 where o: "fs_createWriteStream F ?Z w = (True, w1)"
    and st: "andThen (copyByRequiredDirs F this)
            (\<lambda>u. andThen (archive_directory F (tempDir this) ?Z)
                    (\<lambda>u. ret ?Z)) w1 = (Inr p, w')"
    by (cases rule: compressSession_Inr) (simp add: Dp a)
  have f1: "lookup (D @ c # r) (files w1) = lookup (D @ c # r) (files w)" if "c \<noteq> a @ ''.zip''" for c r
    using createWriteStream_files[OF o] lookup_place_frame[of D "a @ ''.zip''" "[]" _ "files w" "files w1" c r] that
    by auto
  from st have "p = ?Z \<and> lookup ?Z (files w')
           = Some (Zip (staged (\<lambda>d. lookup (D @ [a, d]) (files w)) (requiredDirs this) []))
         \<and> (\<forall>r. lookup (D @ a # r) (files w') = lookup (D @ a # r) (files w))"
  proof (cases rule: andThen_cases)
    case (ok x w3)
    from ok(1)[unfolded copyByRequiredDirs_def] obtain u2 w2 where
      mk: "fs_mkdir F (D @ [b]) w1 = (Inr u2, w2)"
      and cd: "copyDirs F (D @ [a]) (D @ [b]) (requiredDirs this) w2 = (Inr x, w3)"
      by (cases rule: andThen_cases) (auto simp add: U T)
    from mk effect_Inr[of F "Mkdir (D @ [b])" "mkdirp (D @ [b])" w1 u2 w2]
    have m2: "mkdirp (D @ [b]) (files w1) = Some (files w2)"
      by (auto simp add: fs_mkdir_def)
    from f1[of b "[]"] zb fresh have "lookup (D @ [b]) (files w1) = None" by auto
    with mkdirp_same[OF m2] have T2: "lookup (D @ [b]) (files w2) = Some (Dir [])" by simp
    have f2: "lookup (D @ c # r) (files w2) = lookup (D @ c # r) (files w)" if "c \<noteq> b" "c \<noteq> a @ ''.zip''" for c r
      using mkdirp_frame[of D b "[]" "files w1" "files w2" c r] m2 f1[of c r] that by simp
    from f2[of a] ab have src: "(\<lambda>d. lookup (D @ [a, d]) (files w2)) = (\<lambda>d. lookup (D @ [a, d]) (files w))"
      by simp
    from copyDirs_stage[OF acc ab cd T2 _ dist] src
    have T3: "lookup (D @ [b]) (files w3)
           = Some (Dir (staged (\<lambda>d. lookup (D @ [a, d]) (files w)) (requiredDirs this) []))"
      and f3: "lookup (D @ a # r) (files w3) = lookup (D @ a # r) (files w2)" for r
      using ab by simp_all
    from ok(2) show ?thesis
    proof (cases rule: andThen_cases)
      case (ok y w4)
      then have e: "p = ?Z" "w' = w4" by (simp_all add: ret_def)
      from archive_directory_Inr[OF ok(1)] T3 T
      have pl: "place ?Z (Zip (staged (\<lambda>d. lookup (D @ [a, d]) (files w)) (requiredDirs this) [])) (files w3)
                  = Some (files w4)"
        by auto
      have ne: "a \<noteq> a @ ''.zip''" by simp
      have "lookup (D @ a # r) (files w4) = lookup (D @ a # r) (files w)" for r
        using lookup_place_frame[OF pl ne, of r] f3[of r] f2[of a r] ab by simp
      with lookup_place_same[OF pl] e show ?thesis by simp
    qed simp
  qed simp
  then show "p = D @ [a @ ''.zip'']"
    and "lookup p (files w')
           = Some (Zip (staged (\<lambda>d. lookup (D @ [a, d]) (files w)) (requiredDirs this) []))"
    and "\<forall>r. lookup (D @ a # r) (files w') = lookup (D @ a # r) (files w)"
    by simp_all
qed

lemma extractRemoteSession_prefix:
  assumes query: "\<not> F (trace w @ [Access (userDataDir this)]) (StoreSessionExists (sessionName this))"
    and stale: "stale = (\<not> F (trace w) (Access (userDataDir this)) \<and> lookup (userDataDir this) (files w) \<noteq> None)"
    and removed: "removed = (stale \<and> \<not> F (trace w @ [Access (userDataDir this), StoreSessionExists (sessionName this)])
                                  (Rm (userDataDir this) (rmMaxRetries this)))"
    and w3: "w3 = w\<lparr>trace := trace w @ [Access (userDataDir this), StoreSessionExists (sessionName this)]
                            @ (if stale then [Rm (userDataDir this) (rmMaxRetries this)] else []),
                   files := (if removed then remove (userDataDir this) (files w) else files w)\<rparr>"
  shows "extractRemoteSession F this w =
          (if sessionExists_reply (store this) (trace w @ [Access (userDataDir this)]) (sessionName this)
           then andThen (store_extract F (store this) (sessionName this)
                           (dataPath this @ [sessionName this @ ''.zip'']))
                  (\<lambda>u. unCompressSession F this (dataPath this @ [sessionName this @ ''.zip''])) w3
           else fs_mkdirSync F (userDataDir this) w3)"
proof -
  obtain b w1 where v: "isValidPath F (userDataDir this) w = (b, w1)"
    by (cases "isValidPath F (userDataDir this) w")
  from isValidPath_world[OF v] stale
  have w1: "w1 = w\<lparr>trace := trace w @ [Access (userDataDir this)]\<rparr>" and b: "b = stale" by simp_all
  show ?thesis
    using query
    by (simp add: extractRemoteSession_def v w1 b Let_def andThen_def store_sessionExists_def
        swallow_def ret_def fs_rm_def effect_def w3 removed)
qed

lemma extractRemoteSession_run:
  assumes run: "extractRemoteSession F this w = (r, w')"
    and lay: "userDataDir this = dataPath this @ [sessionName this]"
    and query: "\<not> F (trace w @ [Access (userDataDir this)]) (StoreSessionExists (sessionName this))"
    and stale: "stale = (\<not> F (trace w) (Access (userDataDir this)) \<and> lookup (userDataDir this) (files w) \<noteq> None)"
    and h: "h = trace w @ [Access (userDataDir this), StoreSessionExists (sessionName this)]
                 @ (if stale then [Rm (userDataDir this) (rmMaxRetries this)] else [])"
    and clean: "clean = (lookup (userDataDir this) (files w) = None
                  \<or> stale \<and> \<not> F (trace w @ [Access (userDataDir this), StoreSessionExists (sessionName this)])
                                  (Rm (userDataDir this) (rmMaxRetries this)))"
    and Z: "Z = dataPath this @ [sessionName this @ ''.zip'']"
  shows "if sessionExists_reply (store this) (trace w @ [Access (userDataDir this)]) (sessionName this)
         then (\<exists>rest. trace w' = h @ StoreExtract (sessionName this) Z # rest
                 \<and> (rest = [] \<or> rest = [UnzipExtract Z (userDataDir this)]
                      \<or> rest = [UnzipExtract Z (userDataDir this), Unlink Z])
                 \<and> (r = Inr () \<longrightarrow>
                       rest = [UnzipExtract Z (userDataDir this), Unlink Z]
                     \<and> (\<forall>es k. clean \<and> extract_reply (store this) h (sessionName this) = Some (Zip es)
                                \<and> k \<notin> fst ` set es \<longrightarrow>
                              lookup (userDataDir this @ [k]) (files w') = None)))
         else trace w' = h @ [MkdirSync (userDataDir this)]
              \<and> (r = Inr () \<and> clean \<longrightarrow> lookup (userDataDir this) (files w') = Some (Dir []))"
proof -
  let ?U = "userDataDir this" and ?n = "sessionName this"
  define removed where "removed = (stale \<and> \<not> F (trace w @ [Access ?U, StoreSessionExists ?n])
                                  (Rm ?U (rmMaxRetries this)))"
  define w3 where "w3 = w\<lparr>trace := trace w @ [Access ?U, StoreSessionExists ?n]
                            @ (if stale then [Rm ?U (rmMaxRetries this)] else []),
                   files := (if removed then remove ?U (files w) else files w)\<rparr>"
  note pre = extractRemoteSession_prefix[OF query stale removed_def w3_def]
  have t3: "trace w3 = h" by (simp add: w3_def h)
  have U: "?U \<noteq> []" using lay by simp
  have c3: "clean \<Longrightarrow> lookup ?U (files w3) = None"
    using U by (auto simp add: w3_def clean removed_def lookup_remove_same lookup_remove_None)
  show ?thesis
  proof (cases "sessionExists_reply (store this) (trace w @ [Access ?U]) ?n")
    case False
    with pre run have m: "fs_mkdirSync F ?U w3 = (r, w')" by simp
    from effect_world[OF m[unfolded fs_mkdirSync_def]] t3
    have tr: "trace w' = h @ [MkdirSync ?U]" by simp
    have "lookup ?U (files w') = Some (Dir [])" if "r = Inr ()" and clean
    proof -
      from m that(1) effect_Inr[of F "MkdirSync ?U" "mkdirp ?U" w3 "()" w']
      obtain t where "mkdirp ?U (files w3) = Some t" "files w' = t"
        by (auto simp add: fs_mkdirSync_def)
      with mkdirp_same[OF this(1)] c3[OF that(2)] show ?thesis by simp
    qed
    with tr False show ?thesis by simp
  next
    case True
    with pre run have "andThen (store_extract F (store this) ?n Z)
                  (\<lambda>u. unCompressSession F this Z) w3 = (r, w')" by (simp add: Z)
    then have "\<exists>rest. trace w' = h @ StoreExtract ?n Z # rest
                 \<and> (rest = [] \<or> rest = [UnzipExtract Z ?U] \<or> rest = [UnzipExtract Z ?U, Unlink Z])
                 \<and> (r = Inr () \<longrightarrow>
                       rest = [UnzipExtract Z ?U, Unlink Z]
                     \<and> (\<forall>es k. clean \<and> extract_reply (store this) h ?n = Some (Zip es)
                                \<and> k \<notin> fst ` set es \<longrightarrow>
                              lookup (?U @ [k]) (files w') = None))"
    proof (cases rule: andThen_cases)
      case (fail e)
      from effect_world[OF fail(1)[unfolded store_extract_def]] t3 fail(2)
      show ?thesis by simp
    next
      case (ok u w4)
      from effect_world[OF ok(1)[unfolded store_extract_def]] t3
      have t4: "trace w4 = h @ [StoreExtract ?n Z]" by simp
      from ok(2)[unfolded unCompressSession_def] show ?thesis
      proof (cases rule: andThen_cases)
        case (fail e)
        from unzip_extract_trace[OF fail(1)] t4 fail(2)
        show ?thesis by simp
      next
        case (ok u' w5)
        from unzip_extract_trace[OF ok(1)] t4
        have t5: "trace w5 = h @ [StoreExtract ?n Z, UnzipExtract Z ?U]" by simp
        from effect_world[OF ok(2)[unfolded fs_unlink_def]] t5
        have t6: "trace w' = h @ StoreExtract ?n Z # [UnzipExtract Z ?U, Unlink Z]" by simp
        have "lookup (?U @ [k]) (files w') = None"
          if r: "r = Inr ()" and clean and es: "extract_reply (store this) h ?n = Some (Zip es)"
            and k: "k \<notin> fst ` set es" for es k
        proof -
          from effect_Inr[OF \<open>store_extract F (store this) ?n Z w3 = (Inr u, w4)\<close>[unfolded store_extract_def]]
               es t3
          have pl: "place (dataPath this @ [?n @ ''.zip'']) (Zip es) (files w3) = Some (files w4)"
            by (auto simp add: Z)
          have ne: "?n \<noteq> ?n @ ''.zip''" by simp
          from c3[OF \<open>clean\<close>] have "lookup (?U @ [k]) (files w3) = None"
            by (simp add: lookup_append[of ?U "[k]"])
          with lookup_place_frame[OF pl ne, of "[k]"]
          have a4: "lookup (?U @ [k]) (files w4) = None" by (simp add: lay)
          from lookup_place_same[OF pl] have "lookup Z (files w4) = Some (Zip es)" by (simp add: Z)
          from unzip_extract_Zip[OF _ this, of F ?U u' w5] ok(1) r
          have "files w5 = extracted F (trace w4) ?U es (files w4)" by simp
          with extracted_frame[OF k, of ?U "[]" F "trace w4" "files w4"] a4
          have "lookup (?U @ [k]) (files w5) = None" by simp
          moreover from unlink_removes[of F Z w5 "()" w'] ok(2) r
          have "files w' = remove Z (files w5)" by simp
          ultimately show ?thesis by (simp add: lookup_remove_None)
        qed
        with t6 show ?thesis by blast
      qed
    qed
    with True show ?thesis by simp
  qed
qed

lemma beforeBrowserInitialized_compatible:
  assumes "\<not> (truthy pud \<and> interpolate pud \<noteq> path_string (userDataDir (initialised cfg)))"
  shows "beforeBrowserInitialized F cfg pud w
           = andThen (extractRemoteSession F (initialised cfg)) (\<lambda>u. ret (initialised cfg)) w"
  using assms
  by (cases "truthy (clientId cfg)"; cases "truthy pud")
     (simp_all add: beforeBrowserInitialized_def initialised_def Let_def config.extend_def
        strategy.fields_def)

section \<open>The life of the archive file\<close>

text \<open>
  Claim C7, as stated, fails: an archive file can outlive the operation that created it.
  In this recovery the store holds a record whose bytes are not a zip archive; the fetch
  writes them to the archive path, decompression fails, \<open>unCompressSession\<close> never reaches
  its \<open>unlink\<close>, and the file is still on disk when the operation has failed.
\<close>

theorem failed_decompression_leaves_archive:
  "fst (extractRemoteSession no_faults (demo_recorded (File ''not a zip'')) demo_w0)
     = Inl (Failed (UnzipExtract demo_zip demo_dir))
   \<and> lookup demo_zip (files (snd (extractRemoteSession no_faults (demo_recorded (File ''not a zip'')) demo_w0)))
       = Some (File ''not a zip'')"
  by code_simp

text \<open>
  Claim C7, amended. After a backup cycle whose compression succeeded, the archive file
  does not exist, whether \<open>save\<close> succeeded or raised, provided the \<open>unlink\<close> of the archive
  itself does not fail (its failure would be absorbed). After a recovery that found a
  record and returned normally (so decompression succeeded), the archive file does not
  exist. Nothing is promised after a failed compression or a failed decompression.
\<close>

theorem archive_removed_after_backup_and_recovery:
  "(isValidPath F (userDataDir this) w = (True, w1)
      \<and> compressSession F this w1 = (Inr p, w2)
      \<and> (\<forall>h. \<not> F h (Unlink p))
    \<longrightarrow> lookup p (files (snd (storeRemoteSession F this emit w))) = None)
   \<and> (extractRemoteSession F this w = (Inr (), w')
      \<and> sessionExists_reply (store this) (trace w @ [Access (userDataDir this)]) (sessionName this)
    \<longrightarrow> lookup (dataPath this @ [sessionName this @ ''.zip'']) (files w') = None)"
proof (intro conjI impI)
  let ?k = "dataPath this @ [sessionName this]"
  assume a: "isValidPath F (userDataDir this) w = (True, w1)
      \<and> compressSession F this w1 = (Inr p, w2)
      \<and> (\<forall>h. \<not> F h (Unlink p))"
  then have v: "isValidPath F (userDataDir this) w = (True, w1)"
    and c: "compressSession F this w1 = (Inr p, w2)" by simp_all
  obtain r w3 where se: "andThen (store_save F ?k) (\<lambda>u. if emit then client_emit F else ret ()) w2 = (r, w3)"
    by (cases "andThen (store_save F ?k) (\<lambda>u. if emit then client_emit F else ret ()) w2")
  note eq = storeRemoteSession_cases(3)[OF v c se]
  from a have nf: "\<not> F (trace w3) (Unlink p)" by simp
  from compressSession_archive[OF c] save_emit_world[OF se]
  obtain es where z: "lookup p (files w3) = Some (Zip es)" by auto
  from compressSession_steps(2)[OF c] have "p \<noteq> []" by simp
  from finally_unlinks[where F = F, OF z nf this] eq
  show "lookup p (files (snd (storeRemoteSession F this emit w))) = None" by simp
next
  let ?Z = "dataPath this @ [sessionName this @ ''.zip'']"
  assume a: "extractRemoteSession F this w = (Inr (), w')
      \<and> sessionExists_reply (store this) (trace w @ [Access (userDataDir this)]) (sessionName this)"
  obtain b w1 where v: "isValidPath F (userDataDir this) w = (b, w1)"
    by (cases "isValidPath F (userDataDir this) w")
  from isValidPath_world[OF v] have t1: "trace w1 = trace w @ [Access (userDataDir this)]" by simp
  from a v have "andThen (store_sessionExists F (store this) (sessionName this))
             (\<lambda>sessionExists.
                andThen (if b
                         then swallow (fs_rm F (userDataDir this) (rmMaxRetries this))
                         else ret ())
                  (\<lambda>u. if sessionExists
                       then andThen (store_extract F (store this) (sessionName this) ?Z)
                              (\<lambda>u. unCompressSession F this ?Z)
                       else fs_mkdirSync F (userDataDir this))) w1 = (Inr (), w')"
    by (simp add: extractRemoteSession_def Let_def)
  then show "lookup ?Z (files w') = None"
  proof (cases rule: andThen_cases)
    case (ok ex w2)
    with a t1 have ex: "ex" by (auto simp add: store_sessionExists_def Let_def split: if_splits)
    from ok(2) show ?thesis
    proof (cases rule: andThen_cases)
      case (ok u w3)
      with ex have "andThen (store_extract F (store this) (sessionName this) ?Z)
                              (\<lambda>u. unCompressSession F this ?Z) w3 = (Inr (), w')" by simp
      then show ?thesis
      proof (cases rule: andThen_cases)
        case (ok u' w4)
        from ok(2)[unfolded unCompressSession_def] show ?thesis
        proof (cases rule: andThen_cases)
          case (ok u'' w5)
          from unlink_removes[OF ok(2)] show ?thesis by (simp add: lookup_remove_same)
        qed simp
      qed simp
    qed simp
  qed simp
qed

theorem archive_removed_after_backup_and_recovery_witness:
  "isValidPath save_fails (userDataDir demo_this) demo_w0 = (True, demo_w1)
   \<and> compressSession save_fails demo_this demo_w1 = (Inr demo_zip, demo_w2 save_fails)
   \<and> (\<forall>h. \<not> save_fails h (Unlink demo_zip))
   \<and> fst (storeRemoteSession save_fails demo_this False demo_w0)
       = Inl (Failed (StoreSave [''srv'', ''.wwebjs_auth'', ''RemoteAuth-bot1'']))
   \<and> lookup demo_zip (files (snd (storeRemoteSession save_fails demo_this False demo_w0))) = None
   \<and> extractRemoteSession no_faults (demo_recorded demo_archive) demo_w0
       = (Inr (), snd (extractRemoteSession no_faults (demo_recorded demo_archive) demo_w0))
   \<and> sessionExists_reply (store (demo_recorded demo_archive))
        (trace demo_w0 @ [Access (userDataDir (demo_recorded demo_archive))])
        (sessionName (demo_recorded demo_archive))
   \<and> lookup (dataPath (demo_recorded demo_archive) @ [sessionName (demo_recorded demo_archive) @ ''.zip''])
        (files (snd (extractRemoteSession no_faults (demo_recorded demo_archive) demo_w0))) = None"
proof -
  have v: "isValidPath save_fails (userDataDir demo_this) demo_w0 = (True, demo_w1)"
    by (simp add: demo_cycle_start save_fails_def)
  have c: "compressSession save_fails demo_this demo_w1 = (Inr demo_zip, demo_w2 save_fails)"
    by code_simp
  have u: "\<forall>h. \<not> save_fails h (Unlink demo_zip)"
    by (simp add: save_fails_def)
  have r: "fst (storeRemoteSession save_fails demo_this False demo_w0)
       = Inl (Failed (StoreSave [''srv'', ''.wwebjs_auth'', ''RemoteAuth-bot1'']))"
    by code_simp
  have e: "extractRemoteSession no_faults (demo_recorded demo_archive) demo_w0
       = (Inr (), snd (extractRemoteSession no_faults (demo_recorded demo_archive) demo_w0))"
    by code_simp
  note p = demo_recorded_fields(3)[of demo_archive
      "trace demo_w0 @ [Access (userDataDir (demo_recorded demo_archive))]"
      "sessionName (demo_recorded demo_archive)"]
  from archive_removed_after_backup_and_recovery[where F = save_fails and this = demo_this and w = demo_w0 and ?w1.0 = demo_w1
              and p = demo_zip and ?w2.0 = "demo_w2 save_fails" and emit = False]
       archive_removed_after_backup_and_recovery[where F = no_faults and this = "demo_recorded demo_archive" and w = demo_w0
              and w' = "snd (extractRemoteSession no_faults (demo_recorded demo_archive) demo_w0)"]
       v c u r e p
  show ?thesis by simp
qed

section \<open>Recovery\<close>

text \<open>
  Claim C2, as stated, fails in its order: the store is queried before the stale session
  directory is removed, not after. In this recovery (stale directory present, no record)
  the existence query is the second call and the removal the third.
\<close>

theorem recovery_queries_store_before_removal:
  "trace (snd (beforeBrowserInitialized no_faults (demo_config False (File [])) JsUndefined demo_w0))
     = [Access demo_dir, StoreSessionExists ''RemoteAuth-bot1'', Rm demo_dir 4, MkdirSync demo_dir]"
  by code_simp

text \<open>
  Claim C2, amended. In every recovery run in which the existence query answers: the
  session name is derived (\<open>RemoteAuth-<clientId>\<close>, or \<open>RemoteAuth\<close> without an identifier);
  the local session directory is probed, then the store is queried, and only then a
  directory that the probe found is force-removed with the configured number of retries,
  a failure of the removal being absorbed. If a record is present, the next call fetches
  its archive to \<open><dataPath>/<sessionName>.zip\<close>; the fetch succeeding, the decompression
  of that file into the local session directory is started, and once it has resolved the
  file is unlinked; a run that returns normally has made exactly these three calls, in
  this order, and if the directory was clean (absent before, or removed without failure)
  and the store wrote an archive, the directory then has no entry under a name that is
  not a top-level entry of the archive. Which files of the archive are on disk when the
  run returns is not determined. If no record is present, no fetch is attempted and the
  directory is created; when the run returns normally and the directory was clean, it is
  empty.
\<close>

theorem recovery_queries_store_then_clears_directory:
  assumes name: "name = (if truthy (clientId cfg)
                         then ''RemoteAuth-'' @ interpolate (clientId cfg) else ''RemoteAuth'')"
    and U: "U = dataPath cfg @ [name]"
    and Z: "Z = dataPath cfg @ [name @ ''.zip'']"
    and compat: "\<not> (truthy pud \<and> interpolate pud \<noteq> path_string U)"
    and query: "\<not> F (trace w @ [Access U]) (StoreSessionExists name)"
    and stale: "stale = (\<not> F (trace w) (Access U) \<and> lookup U (files w) \<noteq> None)"
    and h: "h = trace w @ [Access U, StoreSessionExists name]
                  @ (if stale then [Rm U (rmMaxRetries cfg)] else [])"
    and clean: "clean = (lookup U (files w) = None
                   \<or> stale \<and> \<not> F (trace w @ [Access U, StoreSessionExists name])
                                   (Rm U (rmMaxRetries cfg)))"
    and run: "beforeBrowserInitialized F cfg pud w = (r, w')"
  shows "if sessionExists_reply (store cfg) (trace w @ [Access U]) name
         then (\<exists>rest. trace w' = h @ StoreExtract name Z # rest
                 \<and> (rest = [] \<or> rest = [UnzipExtract Z U] \<or> rest = [UnzipExtract Z U, Unlink Z])
                 \<and> (case r of
                       Inl e \<Rightarrow> True
                     | Inr this \<Rightarrow>
                         sessionName this = name \<and> userDataDir this = U
                       \<and> rest = [UnzipExtract Z U, Unlink Z]
                       \<and> (\<forall>es k. clean \<and> extract_reply (store cfg) h name = Some (Zip es)
                                  \<and> k \<notin> fst ` set es \<longrightarrow>
                                lookup (U @ [k]) (files w') = None)))
         else trace w' = h @ [MkdirSync U]
              \<and> (case r of
                    Inl e \<Rightarrow> True
                  | Inr this \<Rightarrow>
                      sessionName this = name \<and> userDataDir this = U
                    \<and> (clean \<longrightarrow> lookup U (files w') = Some (Dir [])))"
proof -
  let ?S = "initialised cfg"
  note fl = initialised_fields[of cfg]
  have n: "sessionName ?S = name" and u: "userDataDir ?S = U"
    by (simp_all add: fl name U)
  from compat u have "\<not> (truthy pud \<and> interpolate pud \<noteq> path_string (userDataDir ?S))" by simp
  from run[unfolded beforeBrowserInitialized_compatible[OF this]]
  obtain rr where ex: "extractRemoteSession F ?S w = (rr, w')"
    and r: "r = (case rr of Inl e \<Rightarrow> Inl e | Inr x \<Rightarrow> Inr ?S)"
    by (cases rule: andThen_cases) (auto simp add: ret_def)
  have lay: "userDataDir ?S = dataPath ?S @ [sessionName ?S]" by (simp add: fl)
  note facts = extractRemoteSession_run[OF ex lay, of stale h clean Z,
      unfolded n u fl(2) fl(5) fl(6), OF query stale h clean Z]
  show ?thesis
  proof (cases rr)
    case (Inl e)
    with r facts show ?thesis by (auto split: if_splits)
  next
    case (Inr x)
    with r have "r = Inr ?S" "rr = Inr ()" by simp_all
    with facts n u show ?thesis by (auto split: if_splits)
  qed
qed

theorem recovery_queries_store_then_clears_directory_witness:
  "\<not> (truthy JsUndefined \<and> interpolate JsUndefined \<noteq> path_string demo_dir)
   \<and> \<not> no_faults (trace demo_w0 @ [Access demo_dir]) (StoreSessionExists ''RemoteAuth-bot1'')
   \<and> \<not> sessionExists_reply (store (demo_config False (File []))) (trace demo_w0 @ [Access demo_dir])
          ''RemoteAuth-bot1''
   \<and> trace (snd (beforeBrowserInitialized no_faults (demo_config False (File [])) JsUndefined demo_w0))
       = [Access demo_dir, StoreSessionExists ''RemoteAuth-bot1'', Rm demo_dir 4] @ [MkdirSync demo_dir]
   \<and> sessionName (projr (fst (beforeBrowserInitialized no_faults (demo_config False (File [])) JsUndefined demo_w0)))
       = ''RemoteAuth-bot1''
   \<and> lookup demo_dir
        (files (snd (beforeBrowserInitialized no_faults (demo_config False (File [])) JsUndefined demo_w0)))
       = Some (Dir [])
   \<and> sessionExists_reply (store (demo_config True demo_archive)) (trace demo_w0 @ [Access demo_dir])
        ''RemoteAuth-bot1''
   \<and> \<not> isl (fst (beforeBrowserInitialized no_faults (demo_config True demo_archive) JsUndefined demo_w0))
   \<and> trace (snd (beforeBrowserInitialized no_faults (demo_config True demo_archive) JsUndefined demo_w0))
       = [Access demo_dir, StoreSessionExists ''RemoteAuth-bot1'', Rm demo_dir 4]
         @ StoreExtract ''RemoteAuth-bot1'' demo_zip # [UnzipExtract demo_zip demo_dir, Unlink demo_zip]
   \<and> userDataDir (projr (fst (beforeBrowserInitialized no_faults (demo_config True demo_archive) JsUndefined demo_w0)))
       = demo_dir
   \<and> lookup (demo_dir @ [''Cache'']) (files demo_w0) = Some (Dir [(''blob'', File ''x'')])
   \<and> lookup (demo_dir @ [''Cache''])
        (files (snd (beforeBrowserInitialized no_faults (demo_config True demo_archive) JsUndefined demo_w0)))
       = None"
proof -
  let ?h = "[Access demo_dir, StoreSessionExists ''RemoteAuth-bot1'', Rm demo_dir 4]"
  have cfg: "clientId (demo_config present a) = JsString ''bot1''"
    "dataPath (demo_config present a) = [''srv'', ''.wwebjs_auth'']"
    "rmMaxRetries (demo_config present a) = 4"
    "sessionExists_reply (store (demo_config present a)) hh n = present"
    "extract_reply (store (demo_config present a)) hh n = Some a" for present a hh n
    by (simp_all add: demo_config_def demo_store_def)
  have name: "''RemoteAuth-bot1'' = (if truthy (clientId (demo_config present a))
                         then ''RemoteAuth-'' @ interpolate (clientId (demo_config present a))
                         else ''RemoteAuth'')" for present a
    by (simp add: cfg truthy_def interpolate_def)
  have U: "demo_dir = dataPath (demo_config present a) @ [''RemoteAuth-bot1'']"
    and Z: "demo_zip = dataPath (demo_config present a) @ [''RemoteAuth-bot1'' @ ''.zip'']" for present a
    by (simp_all add: cfg demo_dir_def demo_zip_def)
  have compat: "\<not> (truthy JsUndefined \<and> interpolate JsUndefined \<noteq> path_string demo_dir)"
    by (simp add: truthy_def)
  have q: "\<not> no_faults hh e" for hh e
    by (simp add: no_faults_def)
  have w0: "trace demo_w0 = []" "lookup demo_dir (files demo_w0) \<noteq> None"
    by code_simp+
  have stale: "True = (\<not> no_faults (trace demo_w0) (Access demo_dir) \<and> lookup demo_dir (files demo_w0) \<noteq> None)"
    using q w0 by simp
  have h: "?h = trace demo_w0 @ [Access demo_dir, StoreSessionExists ''RemoteAuth-bot1'']
                  @ (if True then [Rm demo_dir (rmMaxRetries (demo_config present a))] else [])" for present a
    by (simp add: w0 cfg)
  have clean: "True = (lookup demo_dir (files demo_w0) = None
                   \<or> True \<and> \<not> no_faults (trace demo_w0 @ [Access demo_dir, StoreSessionExists ''RemoteAuth-bot1''])
                                   (Rm demo_dir (rmMaxRetries (demo_config present a))))" for present a
    using q by simp
  have run: "beforeBrowserInitialized no_faults c JsUndefined demo_w0
      = (fst (beforeBrowserInitialized no_faults c JsUndefined demo_w0),
         snd (beforeBrowserInitialized no_faults c JsUndefined demo_w0))" for c
    by simp
  have ok1: "\<not> isl (fst (beforeBrowserInitialized no_faults (demo_config False (File [])) JsUndefined demo_w0))"
    and ok2: "\<not> isl (fst (beforeBrowserInitialized no_faults (demo_config True demo_archive) JsUndefined demo_w0))"
    by code_simp+
  from ok1 obtain s1 where s1: "fst (beforeBrowserInitialized no_faults (demo_config False (File [])) JsUndefined demo_w0) = Inr s1"
    by (cases "fst (beforeBrowserInitialized no_faults (demo_config False (File [])) JsUndefined demo_w0)") auto
  from ok2 obtain s2 where s2: "fst (beforeBrowserInitialized no_faults (demo_config True demo_archive) JsUndefined demo_w0) = Inr s2"
    by (cases "fst (beforeBrowserInitialized no_faults (demo_config True demo_archive) JsUndefined demo_w0)") auto
  from recovery_queries_store_then_clears_directory[OF name U Z compat q stale h clean run, of False "File []"]
  have a: "trace (snd (beforeBrowserInitialized no_faults (demo_config False (File [])) JsUndefined demo_w0))
       = ?h @ [MkdirSync demo_dir]
   \<and> sessionName (projr (fst (beforeBrowserInitialized no_faults (demo_config False (File [])) JsUndefined demo_w0)))
       = ''RemoteAuth-bot1''
   \<and> lookup demo_dir
        (files (snd (beforeBrowserInitialized no_faults (demo_config False (File [])) JsUndefined demo_w0)))
       = Some (Dir [])"
    by (simp add: cfg s1)
  have old: "lookup (demo_dir @ [''Cache'']) (files demo_w0) = Some (Dir [(''blob'', File ''x'')])"
    by code_simp
  have arch: "demo_archive = Zip [(''Default'', Dir [(''Cookies'', File ''c'')]),
                                  (''IndexedDB'', Dir [(''db'', File ''i'')]),
                                  (''Local Storage'', Dir [(''leveldb'', File ''l'')])]"
    by (simp add: demo_archive_def)
  from recovery_queries_store_then_clears_directory[OF name U Z compat q stale h clean run, of True demo_archive]
  have b0: "trace (snd (beforeBrowserInitialized no_faults (demo_config True demo_archive) JsUndefined demo_w0))
       = ?h @ StoreExtract ''RemoteAuth-bot1'' demo_zip # [UnzipExtract demo_zip demo_dir, Unlink demo_zip]
   \<and> userDataDir (projr (fst (beforeBrowserInitialized no_faults (demo_config True demo_archive) JsUndefined demo_w0)))
       = demo_dir
   \<and> (\<forall>es k. demo_archive = Zip es \<and> k \<notin> fst ` set es \<longrightarrow>
          lookup (demo_dir @ [k])
            (files (snd (beforeBrowserInitialized no_faults (demo_config True demo_archive) JsUndefined demo_w0)))
          = None)"
    by (auto simp add: cfg s2)
  then have b: "trace (snd (beforeBrowserInitialized no_faults (demo_config True demo_archive) JsUndefined demo_w0))
       = ?h @ StoreExtract ''RemoteAuth-bot1'' demo_zip # [UnzipExtract demo_zip demo_dir, Unlink demo_zip]"
    and b': "userDataDir (projr (fst (beforeBrowserInitialized no_faults (demo_config True demo_archive) JsUndefined demo_w0)))
       = demo_dir"
    and b'': "\<forall>es k. demo_archive = Zip es \<and> k \<notin> fst ` set es \<longrightarrow>
          lookup (demo_dir @ [k])
            (files (snd (beforeBrowserInitialized no_faults (demo_config True demo_archive) JsUndefined demo_w0)))
          = None"
    by blast+
  from b''[rule_format, of "[(''Default'', Dir [(''Cookies'', File ''c'')]),
                                  (''IndexedDB'', Dir [(''db'', File ''i'')]),
                                  (''Local Storage'', Dir [(''leveldb'', File ''l'')])]" "''Cache''"] arch
  have c: "lookup (demo_dir @ [''Cache''])
        (files (snd (beforeBrowserInitialized no_faults (demo_config True demo_archive) JsUndefined demo_w0)))
       = None"
    by simp
  from a b b' c old ok2 compat q show ?thesis by (simp add: cfg)
qed

section \<open>Round trip\<close>

text \<open>
  Claim C8, as stated, fails twice. Decompression writes the regular files of the archive
  and the directories above them, not the entries that are directories themselves: here
  the session directory has an empty directory \<open>Default/Sessions\<close>, the staging directory
  does not exist beforehand, every call succeeds and every write is complete, and after
  the round trip \<open>Default/Sessions\<close> is missing. And staging copies into whatever the staging
  directory already holds: with a leftover file in it, the archive that compression
  produces has that file beside the three required subdirectories.
\<close>

theorem roundtrip_loses_empty_directory:
  "lookup (demo_dir @ [''Default'', ''Sessions'']) (files demo_hollow) = Some (Dir [])
   \<and> lookup demo_tmp (files demo_hollow) = None
   \<and> fst (roundtrip no_faults demo_this demo_hollow) = Inr ()
   \<and> lookup (demo_dir @ [''Default'', ''Sessions''])
        (files (snd (roundtrip no_faults demo_this demo_hollow))) = None
   \<and> lookup demo_tmp (files demo_stale) = Some (Dir [(''stale'', File ''old'')])
   \<and> fst (compressSession no_faults demo_this demo_stale) = Inr demo_zip
   \<and> lookup demo_zip (files (snd (compressSession no_faults demo_this demo_stale)))
       = Some (Zip [(''stale'', File ''old''),
                    (''Default'', Dir [(''Cookies'', File ''c'')]),
                    (''IndexedDB'', Dir [(''db'', File ''i'')]),
                    (''Local Storage'', Dir [(''leveldb'', File ''l'')])])"
  by code_simp

text \<open>
  Claim C8, amended. For a strategy as the constructor builds it, when the staging
  directory does not exist beforehand, no access probe fails and the session directory
  contains the three required subdirectories: in a round trip (staging the session
  directory, compressing the staging directory, removing the session directory and
  decompressing the archive into it) that returns normally, the archive that compression
  produced holds exactly the three required subdirectories, each identical to the
  original, and nothing else; and when the round trip returns, the session directory has
  no entry outside the required set. Whether the files of the three subdirectories are
  back on disk at that moment is not determined, and their empty directories are not
  restored. If every write of the decompression is complete when it resolves (and every
  directory lists a name once), each regular file of the three subdirectories is back at
  its path with its contents.
\<close>

theorem roundtrip_restores_files_of_required_directories:
  assumes cfg: "RemoteAuth d resolve opts = Inr cfg"
    and acc: "\<forall>h p. \<not> F h (Access p)"
    and fresh: "lookup (tempDir cfg) (files w) = None"
    and n1: "lookup (userDataDir (initialised cfg) @ [''Default'']) (files w) = Some n1"
    and n2: "lookup (userDataDir (initialised cfg) @ [''IndexedDB'']) (files w) = Some n2"
    and n3: "lookup (userDataDir (initialised cfg) @ [''Local Storage'']) (files w) = Some n3"
    and run: "roundtrip F (initialised cfg) w = (Inr (), w')"
  shows "(\<exists>w1. compressSession F (initialised cfg) w
                 = (Inr (dataPath cfg @ [sessionName (initialised cfg) @ ''.zip'']), w1)
             \<and> lookup (dataPath cfg @ [sessionName (initialised cfg) @ ''.zip'']) (files w1)
                 = Some (Zip [(''Default'', n1), (''IndexedDB'', n2), (''Local Storage'', n3)]))
       \<and> (\<forall>k. k \<notin> {''Default'', ''IndexedDB'', ''Local Storage''} \<longrightarrow>
                lookup (userDataDir (initialised cfg) @ [k]) (files w') = None)
       \<and> ((\<forall>h p. \<not> F h (WriteEntry p)) \<and> well_formed n1 \<and> well_formed n2 \<and> well_formed n3 \<longrightarrow>
            (\<forall>k q m. k \<in> {''Default'', ''IndexedDB'', ''Local Storage''}
                      \<and> lookup (userDataDir (initialised cfg) @ k # q) (files w) = Some m
                      \<and> (\<forall>ds. m \<noteq> Dir ds) \<longrightarrow>
                    lookup (userDataDir (initialised cfg) @ k # q) (files w') = Some m))"
proof -
  let ?S = "initialised cfg"
  let ?D = "dataPath cfg" and ?a = "sessionName ?S"
  let ?es = "[(''Default'', n1), (''IndexedDB'', n2), (''Local Storage'', n3)]"
  from RemoteAuth_layout[OF cfg] obtain b where
    req: "requiredDirs cfg = [''Default'', ''IndexedDB'', ''Local Storage'']"
    and b: "tempDir cfg = ?D @ [b]" "b \<noteq> ?a" "b \<noteq> ?a @ ''.zip''" by blast
  note fl = initialised_fields[of cfg]
  have U: "userDataDir ?S = ?D @ [?a]" by (rule fl(1))
  have dist: "distinct (requiredDirs ?S)" by (simp add: fl(4) req)
  from run[unfolded roundtrip_def] show ?thesis
  proof (cases rule: andThen_cases)
    case (ok p w1)
    have st: "p = ?D @ [?a @ ''.zip'']"
      "lookup p (files w1) = Some (Zip (staged (\<lambda>d. lookup (?D @ [?a, d]) (files w)) (requiredDirs ?S) []))"
      using compressSession_stage[OF acc U _ fl(2) refl _ _ _ dist ok(1), of b] b fl(3) fresh by auto
    from n1 n2 n3 have "staged (\<lambda>d. lookup (?D @ [?a, d]) (files w)) (requiredDirs ?S) [] = ?es"
      by (simp add: fl(4) req U)
    with st have z1: "lookup (?D @ [?a @ ''.zip'']) (files w1) = Some (Zip ?es)" by simp
    from ok(1) st(1) z1 have first: "\<exists>w1. compressSession F ?S w = (Inr (?D @ [?a @ ''.zip'']), w1)
             \<and> lookup (?D @ [?a @ ''.zip'']) (files w1) = Some (Zip ?es)"
      by blast
    from ok(2) have "(\<forall>k. k \<notin> {''Default'', ''IndexedDB'', ''Local Storage''} \<longrightarrow>
                lookup (userDataDir ?S @ [k]) (files w') = None)
       \<and> ((\<forall>h p. \<not> F h (WriteEntry p)) \<and> well_formed n1 \<and> well_formed n2 \<and> well_formed n3 \<longrightarrow>
            (\<forall>k q m. k \<in> {''Default'', ''IndexedDB'', ''Local Storage''}
                      \<and> lookup (userDataDir ?S @ k # q) (files w) = Some m
                      \<and> (\<forall>ds. m \<noteq> Dir ds) \<longrightarrow>
                    lookup (userDataDir ?S @ k # q) (files w') = Some m))"
    proof (cases rule: andThen_cases)
      case (ok u w2)
      from rm_removes[OF ok(1)]
      have f2: "files w2 = remove (?D @ [?a]) (files w1)"
        by (simp add: U)
      have ne: "?a @ ''.zip'' \<noteq> ?a" by simp
      have gone: "lookup (?D @ [?a]) (files w2) = None"
        by (simp add: f2 lookup_remove_same)
      have z2: "lookup (?D @ [?a @ ''.zip'']) (files w2) = Some (Zip ?es)"
        using lookup_remove_frame[OF ne, of ?D "[]" "[]" "files w1"] z1 f2 by simp
      from ok(2)[unfolded unCompressSession_def st(1)] show ?thesis
      proof (cases rule: andThen_cases)
        case (ok x w3)
        from unzip_extract_Zip[OF ok(1) z2]
        have f3: "files w3 = extracted F (trace w2) (userDataDir ?S) ?es (files w2)" .
        from unlink_removes[OF ok(2)]
        have f4: "files w' = remove (?D @ [?a @ ''.zip'']) (files w3)" .
        have outside: "\<forall>k. k \<notin> {''Default'', ''IndexedDB'', ''Local Storage''} \<longrightarrow>
                lookup (userDataDir ?S @ [k]) (files w') = None"
        proof (intro allI impI)
          fix k :: string
          assume k: "k \<notin> {''Default'', ''IndexedDB'', ''Local Storage''}"
          then have "k \<notin> fst ` set ?es" by simp
          from extracted_frame[OF this, of "userDataDir ?S" "[]" F "trace w2" "files w2"] f3
          have "lookup (userDataDir ?S @ [k]) (files w3) = lookup (userDataDir ?S @ [k]) (files w2)"
            by simp
          also have "\<dots> = None"
            using gone lookup_append[of "?D @ [?a]" "[k]" "files w2"] by (simp add: U)
          finally show "lookup (userDataDir ?S @ [k]) (files w') = None"
            by (simp add: f4 lookup_remove_None)
        qed
        have inside: "lookup (userDataDir ?S @ k # q) (files w') = Some m"
          if complete: "\<forall>h p. \<not> F h (WriteEntry p)" and well_formed: "well_formed n1" "well_formed n2" "well_formed n3"
            and k: "k \<in> {''Default'', ''IndexedDB'', ''Local Storage''}"
            and m: "lookup (userDataDir ?S @ k # q) (files w) = Some m" "\<forall>ds. m \<noteq> Dir ds"
          for k q m
        proof -
          from k n1 n2 n3 have "lookup (userDataDir ?S @ [k]) (files w) = map_of ?es k"
            by auto
          with m(1) lookup_append[of "userDataDir ?S @ [k]" q "files w"]
          have "lookup (k # q) (Dir ?es) = Some m"
            by (auto split: option.splits)
          from files_of_lookup[OF this m(2), of "userDataDir ?S"]
          have mem: "(userDataDir ?S @ k # q, m) \<in> set (files_of (userDataDir ?S) (Dir ?es))" .
          from well_formed have wfes: "well_formed (Dir ?es)" by simp
          from lookup_parent_Dir[OF z2] obtain ds where "lookup ?D (files w2) = Some (Dir ds)"
            by blast
          from mkdirp_existing[OF this] have up: "mkdirp (butlast (userDataDir ?S)) (files w2) \<noteq> None"
            by (simp add: U)
          from complete have c: "\<forall>p. \<not> F (trace w2) (WriteEntry p)" by simp
          have Une: "userDataDir ?S \<noteq> []" and gone': "lookup (userDataDir ?S) (files w2) = None"
            using gone by (simp_all add: U)
          note fw = files_written[where F = F and h = "trace w2" and n = "Dir ?es"
                  and c = "userDataDir ?S" and t = "files w2", OF c wfes Une gone' up]
          from bspec[OF conjunct1[OF fw] mem]
          have "lookup (userDataDir ?S @ k # q)
                  (fold (\<lambda>(p, n) t'. if F (trace w2) (WriteEntry p) then t' else write_file p n t')
                     (files_of (userDataDir ?S) (Dir ?es)) (files w2)) = Some m"
            by (simp only: split_conv)
          then have "lookup (userDataDir ?S @ k # q) (files w3) = Some m"
            by (simp only: f3 extracted_def)
          with lookup_remove_frame[OF ne[symmetric], of ?D "k # q" "[]" "files w3"] f4
          show ?thesis by (simp add: U)
        qed
        show ?thesis
        proof (intro conjI impI allI)
          fix k :: string
          assume "k \<notin> {''Default'', ''IndexedDB'', ''Local Storage''}"
          with outside show "lookup (userDataDir ?S @ [k]) (files w') = None" by simp
        next
          fix k :: string and q m
          assume a: "(\<forall>h p. \<not> F h (WriteEntry p)) \<and> well_formed n1 \<and> well_formed n2 \<and> well_formed n3"
            and b: "k \<in> {''Default'', ''IndexedDB'', ''Local Storage''}
                      \<and> lookup (userDataDir ?S @ k # q) (files w) = Some m
                      \<and> (\<forall>ds. m \<noteq> Dir ds)"
          from a have a1: "\<forall>h p. \<not> F h (WriteEntry p)" and a2: "well_formed n1" "well_formed n2" "well_formed n3"
            by blast+
          from b have b1: "k \<in> {''Default'', ''IndexedDB'', ''Local Storage''}"
            and b2: "lookup (userDataDir ?S @ k # q) (files w) = Some m"
            and b3: "\<forall>ds. m \<noteq> Dir ds"
            by blast+
          from inside[OF a1 a2 b1 b2 b3]
          show "lookup (userDataDir ?S @ k # q) (files w') = Some m" .
        qed
      qed simp
    qed simp
    with first show ?thesis by blast
  qed simp
qed

theorem roundtrip_restores_files_of_required_directories_witness:
  "RemoteAuth (require_optional (\<lambda>p. True)) demo_resolve (demo_options ''bot1'' False (File []))
     = Inr (demo_config False (File []))
   \<and> (\<forall>h p. \<not> no_faults h (Access p))
   \<and> lookup (tempDir (demo_config False (File []))) (files demo_w0) = None
   \<and> lookup (userDataDir (initialised (demo_config False (File []))) @ [''Default'']) (files demo_w0)
       = Some (Dir [(''Cookies'', File ''c'')])
   \<and> lookup (userDataDir (initialised (demo_config False (File []))) @ [''IndexedDB'']) (files demo_w0)
       = Some (Dir [(''db'', File ''i'')])
   \<and> lookup (userDataDir (initialised (demo_config False (File []))) @ [''Local Storage'']) (files demo_w0)
       = Some (Dir [(''leveldb'', File ''l'')])
   \<and> lookup (userDataDir (initialised (demo_config False (File []))) @ [''Cache'']) (files demo_w0)
       = Some (Dir [(''blob'', File ''x'')])
   \<and> roundtrip no_faults (initialised (demo_config False (File []))) demo_w0
       = (Inr (), snd (roundtrip no_faults (initialised (demo_config False (File []))) demo_w0))
   \<and> (\<exists>w1. compressSession no_faults (initialised (demo_config False (File []))) demo_w0
              = (Inr (dataPath (demo_config False (File []))
                       @ [sessionName (initialised (demo_config False (File []))) @ ''.zip'']), w1)
          \<and> lookup (dataPath (demo_config False (File []))
                       @ [sessionName (initialised (demo_config False (File []))) @ ''.zip'']) (files w1)
              = Some (Zip [(''Default'', Dir [(''Cookies'', File ''c'')]),
                           (''IndexedDB'', Dir [(''db'', File ''i'')]),
                           (''Local Storage'', Dir [(''leveldb'', File ''l'')])]))
   \<and> lookup (userDataDir (initialised (demo_config False (File []))) @ [''Cache''])
        (files (snd (roundtrip no_faults (initialised (demo_config False (File []))) demo_w0)))
       = None
   \<and> (\<forall>h p. \<not> no_faults h (WriteEntry p))
   \<and> well_formed (Dir [(''Cookies'', File ''c'')]) \<and> well_formed (Dir [(''db'', File ''i'')])
   \<and> well_formed (Dir [(''leveldb'', File ''l'')])
   \<and> lookup (userDataDir (initialised (demo_config False (File []))) @ [''Default'', ''Cookies''])
        (files demo_w0) = Some (File ''c'')
   \<and> lookup (userDataDir (initialised (demo_config False (File []))) @ [''Default'', ''Cookies''])
        (files (snd (roundtrip no_faults (initialised (demo_config False (File []))) demo_w0)))
       = Some (File ''c'')"
proof -
  have acc: "\<forall>h p. \<not> no_faults h (Access p)"
    by (simp add: no_faults_def)
  have fresh: "lookup (tempDir (demo_config False (File []))) (files demo_w0) = None"
    by code_simp
  have n1: "lookup (userDataDir (initialised (demo_config False (File []))) @ [''Default'']) (files demo_w0)
       = Some (Dir [(''Cookies'', File ''c'')])"
    and n2: "lookup (userDataDir (initialised (demo_config False (File []))) @ [''IndexedDB'']) (files demo_w0)
       = Some (Dir [(''db'', File ''i'')])"
    and n3: "lookup (userDataDir (initialised (demo_config False (File []))) @ [''Local Storage'']) (files demo_w0)
       = Some (Dir [(''leveldb'', File ''l'')])"
    and n4: "lookup (userDataDir (initialised (demo_config False (File []))) @ [''Cache'']) (files demo_w0)
       = Some (Dir [(''blob'', File ''x'')])"
    and n5: "lookup (userDataDir (initialised (demo_config False (File []))) @ [''Default'', ''Cookies''])
        (files demo_w0) = Some (File ''c'')"
    by code_simp+
  have run: "roundtrip no_faults (initialised (demo_config False (File []))) demo_w0
       = (Inr (), snd (roundtrip no_faults (initialised (demo_config False (File []))) demo_w0))"
    by code_simp
  have k: "''Cache'' \<notin> {''Default'', ''IndexedDB'', ''Local Storage''}"
    by simp
  have complete: "\<forall>h p. \<not> no_faults h (WriteEntry p)"
    by (simp add: no_faults_def)
  have wf1: "well_formed (Dir [(''Cookies'', File ''c'')])" and wf2: "well_formed (Dir [(''db'', File ''i'')])"
    and wf3: "well_formed (Dir [(''leveldb'', File ''l'')])"
    by simp_all
  note rt = roundtrip_restores_files_of_required_directories[OF demo_construction acc fresh n1 n2 n3 run]
  note c1 = conjunct1[OF rt]
  note c2 = conjunct1[OF conjunct2[OF rt], rule_format, OF k]
  from complete wf1 wf2 wf3
  have pre: "(\<forall>h p. \<not> no_faults h (WriteEntry p)) \<and> well_formed (Dir [(''Cookies'', File ''c'')])
      \<and> well_formed (Dir [(''db'', File ''i'')]) \<and> well_formed (Dir [(''leveldb'', File ''l'')])"
    by - (intro conjI; assumption)
  note c3 = mp[OF conjunct2[OF conjunct2[OF rt]] pre]
  from c3[rule_format, of "''Default''" "[''Cookies'']" "File ''c''"] n5
  have c4: "lookup (userDataDir (initialised (demo_config False (File []))) @ [''Default'', ''Cookies''])
        (files (snd (roundtrip no_faults (initialised (demo_config False (File []))) demo_w0)))
       = Some (File ''c'')"
    by simp
  from c1 c2 c4 demo_construction[of False "File []"] acc fresh n1 n2 n3 n4 n5 run complete wf1 wf2 wf3
  show ?thesis by - (intro conjI; assumption)
qed

end
